theory Spec2Isabelle
  imports Main "HOL-Library.Word" "HOL-Library.Code_Target_Numeral"
begin

unbundle bit_operations_syntax

section \<open>kepify: cmd/kepify/main.go\<close>

text \<open>
  The program walks a directory of KEP documents, parses each one with the
  \<^verbatim>\<open>keps\<close> package and writes them as one JSON object to a file.
  A Go \<^verbatim>\<open>string\<close> is a sequence of bytes, and so is an Isabelle \<open>string\<close>
  (a list of 8-bit characters). The characters the program's string literals escape are named here.
\<close>

type_synonym byte = "8 word"
type_synonym u32 = "32 word"

abbreviation TAB :: string where "TAB \<equiv> [CHR 0x09]"
abbreviation NL :: string where "NL \<equiv> [CHR 0x0A]"
abbreviation DQ :: string where "DQ \<equiv> [CHR 0x22]"
abbreviation BSL :: string where "BSL \<equiv> [CHR 0x5C]"
abbreviation SQ :: string where "SQ \<equiv> [CHR 0x27]"

subsection \<open>The Go standard library, as far as main.go calls it\<close>

subsubsection \<open>strings.HasSuffix\<close>

definition HasSuffix :: "string \<Rightarrow> string \<Rightarrow> bool" where
  "HasSuffix s suffix =
     (length suffix \<le> length s \<and> drop (length s - length suffix) s = suffix)"

subsubsection \<open>crypto/md5 and the verb %x on a byte array\<close>

text \<open>
  \<^verbatim>\<open>md5.Sum\<close> is the digest of RFC 1321: the message is padded with the byte 0x80,
  zeros and its length in bits, and read in blocks of sixteen little-endian words; each
  block takes sixty-four steps on four 32-bit words. The verb \<^verbatim>\<open>%x\<close> writes two
  lower-case hexadecimal digits for each byte of the digest.
\<close>

definition md5_K :: "u32 list" where
  "md5_K =
    [0xd76aa478, 0xe8c7b756, 0x242070db, 0xc1bdceee,
     0xf57c0faf, 0x4787c62a, 0xa8304613, 0xfd469501,
     0x698098d8, 0x8b44f7af, 0xffff5bb1, 0x895cd7be,
     0x6b901122, 0xfd987193, 0xa679438e, 0x49b40821,
     0xf61e2562, 0xc040b340, 0x265e5a51, 0xe9b6c7aa,
     0xd62f105d, 0x02441453, 0xd8a1e681, 0xe7d3fbc8,
     0x21e1cde6, 0xc33707d6, 0xf4d50d87, 0x455a14ed,
     0xa9e3e905, 0xfcefa3f8, 0x676f02d9, 0x8d2a4c8a,
     0xfffa3942, 0x8771f681, 0x6d9d6122, 0xfde5380c,
     0xa4beea44, 0x4bdecfa9, 0xf6bb4b60, 0xbebfbc70,
     0x289b7ec6, 0xeaa127fa, 0xd4ef3085, 0x04881d05,
     0xd9d4d039, 0xe6db99e5, 0x1fa27cf8, 0xc4ac5665,
     0xf4292244, 0x432aff97, 0xab9423a7, 0xfc93a039,
     0x655b59c3, 0x8f0ccc92, 0xffeff47d, 0x85845dd1,
     0x6fa87e4f, 0xfe2ce6e0, 0xa3014314, 0x4e0811a1,
     0xf7537e82, 0xbd3af235, 0x2ad7d2bb, 0xeb86d391]"

definition md5_S :: "nat list" where
  "md5_S =
    [7, 12, 17, 22, 7, 12, 17, 22, 7, 12, 17, 22, 7, 12, 17, 22,
     5, 9, 14, 20, 5, 9, 14, 20, 5, 9, 14, 20, 5, 9, 14, 20,
     4, 11, 16, 23, 4, 11, 16, 23, 4, 11, 16, 23, 4, 11, 16, 23,
     6, 10, 15, 21, 6, 10, 15, 21, 6, 10, 15, 21, 6, 10, 15, 21]"

definition md5_F :: "nat \<Rightarrow> u32 \<Rightarrow> u32 \<Rightarrow> u32 \<Rightarrow> u32" where
  "md5_F i b c d =
     (if i < 16 then (b AND c) OR (NOT b AND d)
      else if i < 32 then (d AND b) OR (NOT d AND c)
      else if i < 48 then b XOR c XOR d
      else c XOR (b OR NOT d))"

definition md5_g :: "nat \<Rightarrow> nat" where
  "md5_g i =
     (if i < 16 then i
      else if i < 32 then (5 * i + 1) mod 16
      else if i < 48 then (3 * i + 5) mod 16
      else (7 * i) mod 16)"

definition md5_step ::
  "u32 list \<Rightarrow> nat \<Rightarrow> u32 \<times> u32 \<times> u32 \<times> u32 \<Rightarrow> u32 \<times> u32 \<times> u32 \<times> u32" where
  "md5_step m i h =
     (case h of (a, b, c, d) \<Rightarrow>
        (d, b + word_rotl (md5_S ! i) (a + md5_F i b c d + md5_K ! i + m ! md5_g i), b, c))"

definition md5_block ::
  "u32 \<times> u32 \<times> u32 \<times> u32 \<Rightarrow> u32 list \<Rightarrow> u32 \<times> u32 \<times> u32 \<times> u32" where
  "md5_block h m =
     (case h of (a0, b0, c0, d0) \<Rightarrow>
      case fold (md5_step m) [0..<64] h of
        (a, b, c, d) \<Rightarrow> (a0 + a, b0 + b, c0 + c, d0 + d))"

definition le_bytes32 :: "u32 \<Rightarrow> byte list" where
  "le_bytes32 w = map (\<lambda>i. ucast (drop_bit (8 * i) w)) [0..<4]"

definition le_bytes64 :: "64 word \<Rightarrow> byte list" where
  "le_bytes64 w = map (\<lambda>i. ucast (drop_bit (8 * i) w)) [0..<8]"

definition le_word32 :: "byte list \<Rightarrow> u32" where
  "le_word32 bs = foldr (\<lambda>b acc. ucast b OR push_bit 8 acc) bs 0"

definition md5_pad :: "byte list \<Rightarrow> byte list" where
  "md5_pad bs =
     bs @ [0x80] @ replicate ((119 - length bs mod 64) mod 64) 0
        @ le_bytes64 (8 * of_nat (length bs))"

fun chunks :: "nat \<Rightarrow> nat \<Rightarrow> 'a list \<Rightarrow> 'a list list" where
  "chunks 0 k xs = []"
| "chunks (Suc n) k xs = take k xs # chunks n k (drop k xs)"

definition md5_words :: "byte list \<Rightarrow> u32 list" where
  "md5_words bs = map le_word32 (chunks 16 4 bs)"

definition md5_Sum :: "byte list \<Rightarrow> byte list" where
  "md5_Sum data =
     (let bs = md5_pad data in
      case fold (\<lambda>blk h. md5_block h (md5_words blk)) (chunks (length bs div 64) 64 bs)
             (0x67452301, 0xefcdab89, 0x98badcfe, 0x10325476) of
        (a, b, c, d) \<Rightarrow> le_bytes32 a @ le_bytes32 b @ le_bytes32 c @ le_bytes32 d)"

definition bytes :: "string \<Rightarrow> byte list" where
  "bytes s = map of_char s"

definition hexdigit :: "nat \<Rightarrow> char" where
  "hexdigit n = ''0123456789abcdef'' ! n"

definition hexEncode :: "byte list \<Rightarrow> string" where
  "hexEncode bs = concat (map (\<lambda>b. [hexdigit (unat b div 16), hexdigit (unat b mod 16)]) bs)"

subsection \<open>hash and ignore\<close>

text \<open>\<^verbatim>\<open>func hash(s string) string { return fmt.Sprintf("%x", md5.Sum([]byte(s))) }\<close>\<close>

definition hash :: "string \<Rightarrow> string" where
  "hash s = hexEncode (md5_Sum (bytes s))"

text \<open>
  \<^verbatim>\<open>ignore\<close>: first the suffix test, then the seven names, as the source has them.
\<close>

definition ignore :: "string \<Rightarrow> bool" where
  "ignore name =
     (if \<not> HasSuffix name ''md'' then True
      else if name = ''0023-documentation-for-images.md'' \<or>
              name = ''0004-cloud-provider-template.md'' \<or>
              name = ''0001a-meta-kep-implementation.md'' \<or>
              name = ''0001-kubernetes-enhancement-proposal-process.md'' \<or>
              name = ''YYYYMMDD-kep-template.md'' \<or>
              name = ''README.md'' \<or>
              name = ''kep-faq.md'' then True
      else False)"

subsubsection \<open>unicode/utf8 and encoding/json\<close>

text \<open>
  \<^verbatim>\<open>utf8.DecodeRuneInString\<close> on the byte values of a string: the rune and the
  number of bytes it takes. An ill-formed sequence decodes to \<open>RuneError\<close> with size 1.
  The ranges are the ones of Go's table of first bytes and of its accept ranges.
\<close>

definition RuneError :: nat where
  "RuneError = 0xFFFD"

definition contByte :: "nat \<Rightarrow> bool" where
  "contByte b = (0x80 \<le> b \<and> b \<le> 0xBF)"

definition DecodeRune :: "nat list \<Rightarrow> nat \<times> nat" where
  "DecodeRune bs =
     (case bs of
        [] \<Rightarrow> (RuneError, 0)
      | b0 # rest \<Rightarrow>
          if b0 < 0x80 then (b0, 1)
          else if b0 < 0xC2 \<or> 0xF4 < b0 then (RuneError, 1)
          else
            let sz = (if b0 < 0xE0 then 2 else if b0 < 0xF0 then 3 else 4 :: nat);
                lo = (if b0 = 0xE0 then 0xA0 else if b0 = 0xF0 then 0x90 else 0x80 :: nat);
                hi = (if b0 = 0xED then 0x9F else if b0 = 0xF4 then 0x8F else 0xBF :: nat)
            in
              if length rest + 1 < sz then (RuneError, 1)
              else if rest ! 0 < lo \<or> hi < rest ! 0 then (RuneError, 1)
              else if sz \<le> 2 then ((b0 mod 32) * 64 + rest ! 0 mod 64, 2)
              else if \<not> contByte (rest ! 1) then (RuneError, 1)
              else if sz \<le> 3 then
                ((b0 mod 16) * 4096 + (rest ! 0 mod 64) * 64 + rest ! 1 mod 64, 3)
              else if \<not> contByte (rest ! 2) then (RuneError, 1)
              else
                ((b0 mod 8) * 262144 + (rest ! 0 mod 64) * 4096 + (rest ! 1 mod 64) * 64
                   + rest ! 2 mod 64, 4))"

text \<open>
  \<^verbatim>\<open>json.Marshal\<close> escapes HTML: the bytes it copies unchanged are the ASCII
  characters from the space on, but for the quote, the backslash and
  \<^verbatim>\<open>< > &\<close> (Go's \<^verbatim>\<open>htmlSafeSet\<close>).
\<close>

definition htmlSafe :: "char \<Rightarrow> bool" where
  "htmlSafe c =
     (0x20 \<le> (of_char c :: nat) \<and> (of_char c :: nat) < 0x80 \<and>
      c \<noteq> CHR 0x22 \<and> c \<noteq> CHR 0x5C \<and> c \<noteq> CHR ''<'' \<and> c \<noteq> CHR ''>'' \<and> c \<noteq> CHR ''&'')"

text \<open>
  The escape of one ASCII byte that is not copied: \<^verbatim>\<open>\\\<close>, \<^verbatim>\<open>\"\<close>,
  \<^verbatim>\<open>\n\<close>, \<^verbatim>\<open>\r\<close>, \<^verbatim>\<open>\t\<close>, and \<^verbatim>\<open>\u00XX\<close> for the others.
\<close>

definition escapeByte :: "char \<Rightarrow> string" where
  "escapeByte c =
     BSL @
     (if c = CHR 0x5C \<or> c = CHR 0x22 then [c]
      else if c = CHR 0x0A then ''n''
      else if c = CHR 0x0D then ''r''
      else if c = CHR 0x09 then ''t''
      else ''u00'' @ [hexdigit (of_char c div 16), hexdigit (of_char c mod 16)])"

text \<open>
  The loop of the encoder's \<^verbatim>\<open>string\<close> method, between the two quotes: an
  ill-formed byte becomes \<^verbatim>\<open>the escape of U+FFFD\<close>, the line and paragraph separators
  U+2028 and U+2029 are escaped, every other rune is copied. This and \<open>escapeByte\<close> follow
  \<^verbatim>\<open>encoding/json\<close> as it stood up to Go 1.21. Later releases write the bytes
  0x08 and 0x0C as \<^verbatim>\<open>\b\<close> and \<^verbatim>\<open>\f\<close> and an ill-formed byte as the three
  bytes of U+FFFD; \<open>scanString\<close> reads those forms as well.
\<close>

function encodeBody :: "string \<Rightarrow> string" where
  "encodeBody [] = []"
| "encodeBody (c # cs) =
     (if (of_char c :: nat) < 0x80 then
        (if htmlSafe c then [c] else escapeByte c) @ encodeBody cs
      else
        case DecodeRune (map of_char (c # cs)) of
          (r, n) \<Rightarrow>
            if r = RuneError \<and> n = 1 then BSL @ ''ufffd'' @ encodeBody (drop n (c # cs))
            else if r = 0x2028 \<or> r = 0x2029 then
              BSL @ ''u202'' @ [hexdigit (r mod 16)] @ encodeBody (drop n (c # cs))
            else take n (c # cs) @ encodeBody (drop n (c # cs)))"
  by pat_completeness auto
termination
proof -
  have pos: "0 < n" if "(r, n) = DecodeRune (b # bs)" for r n b bs
  proof -
    have "0 < snd (DecodeRune (b # bs))"
      by (simp add: DecodeRune_def Let_def)
    with that show ?thesis by (metis snd_conv)
  qed
  show ?thesis
    by (relation "measure length") (auto dest: pos)
qed

text \<open>\<^verbatim>\<open>json.Marshal\<close> of a string.\<close>

definition json_Marshal_string :: "string \<Rightarrow> string" where
  "json_Marshal_string s = DQ @ encodeBody s @ DQ"

text \<open>
  A Go slice \<^verbatim>\<open>[]string\<close> is \<^verbatim>\<open>nil\<close> or holds a sequence: \<open>None\<close> is the
  nil slice, \<open>Some xs\<close> a slice that is not nil (\<open>Some []\<close> is \<^verbatim>\<open>[]string{}\<close>).
  \<^verbatim>\<open>json.Marshal\<close> writes a nil slice as \<^verbatim>\<open>null\<close> and any other as its
  elements between brackets, with one comma between two of them.
\<close>

type_synonym strings = "string list option"

fun len :: "strings \<Rightarrow> nat" where
  "len None = 0"
| "len (Some xs) = length xs"

fun joinComma :: "string list \<Rightarrow> string" where
  "joinComma [] = []"
| "joinComma [x] = x"
| "joinComma (x # y # ys) = x @ '','' @ joinComma (y # ys)"

fun json_Marshal_strings :: "strings \<Rightarrow> string" where
  "json_Marshal_strings None = ''null''"
| "json_Marshal_strings (Some xs) = ''['' @ joinComma (map json_Marshal_string xs) @ '']''"

subsubsection \<open>The verb %d on a length\<close>

fun decimal :: "nat \<Rightarrow> string" where
  "decimal n = (if n < 10 then [hexdigit n] else decimal (n div 10) @ [hexdigit (n mod 10)])"

declare decimal.simps [simp del]

subsection \<open>The keps package: what main.go uses of it\<close>

text \<open>
  Modelled from the spec: the type \<^verbatim>\<open>keps.Proposal\<close> is declared outside
  main.go. Its fields are the ones main.go reads, with the types the spec's data model
  gives them: strings, sequences of strings, and the parse error (\<open>None\<close> is
  \<^verbatim>\<open>nil\<close>, \<open>Some msg\<close> an error whose \<^verbatim>\<open>Error()\<close> is \<open>msg\<close>).
\<close>

record Proposal =
  Title :: string
  OwningSIG :: string
  ParticipatingSIGs :: strings
  Reviewers :: strings
  Authors :: strings
  Editor :: string
  CreationDate :: string
  LastUpdated :: string
  Status :: string
  SeeAlso :: strings
  Replaces :: strings
  SupersededBy :: strings
  Contents :: string
  Error :: "string option"

text \<open>
  Modelled from the spec: \<^verbatim>\<open>Proposals.AddProposal\<close> is defined outside main.go.
  The spec: ``\<^verbatim>\<open>addRecord(Record)\<close> appends to the ordered Collection
  unconditionally''.
\<close>

definition AddProposal :: "Proposal list \<Rightarrow> Proposal \<Rightarrow> Proposal list" where
  "AddProposal proposals kep = proposals @ [kep]"

subsection \<open>marshal and printJSONOutput\<close>

text \<open>
  \<^verbatim>\<open>func marshal(array []string) string\<close>: the bytes of \<^verbatim>\<open>json.Marshal(array)\<close>;
  the error, which a slice of strings never gives, is dropped.
\<close>

definition marshal :: "strings \<Rightarrow> string" where
  "marshal array = json_Marshal_strings array"

text \<open>
  The four format strings of the loop, each with its arguments:
  \<^verbatim>\<open>"\t\"%s\": {\n"\<close>, \<^verbatim>\<open>"\t\t\"%s\": \"%s\",\n"\<close>,
  \<^verbatim>\<open>"\t\t\"%s\": %s,\n"\<close> and \<^verbatim>\<open>"\t\t\"%s\": %s\n"\<close>.
  The verb \<^verbatim>\<open>%s\<close> copies the bytes of its argument.
\<close>

definition fmtKey :: "string \<Rightarrow> string" where
  "fmtKey h = TAB @ DQ @ h @ DQ @ '': {'' @ NL"

definition fmtQuoted :: "string \<Rightarrow> string \<Rightarrow> string" where
  "fmtQuoted k v = TAB @ TAB @ DQ @ k @ DQ @ '': '' @ DQ @ v @ DQ @ '','' @ NL"

definition fmtPlain :: "string \<Rightarrow> string \<Rightarrow> string" where
  "fmtPlain k v = TAB @ TAB @ DQ @ k @ DQ @ '': '' @ v @ '','' @ NL"

definition fmtLast :: "string \<Rightarrow> string \<Rightarrow> string" where
  "fmtLast k v = TAB @ TAB @ DQ @ k @ DQ @ '': '' @ v @ NL"

text \<open>
  The key of a member, the argument of the first \<^verbatim>\<open>Fprintf\<close> of the loop:
  \<^verbatim>\<open>hash(kep.OwningSIG+":"+kep.Title)\<close>. The spec calls it the identifier.
\<close>

definition identifierOf :: "Proposal \<Rightarrow> string" where
  "identifierOf kep = hash (OwningSIG kep @ '':'' @ Title kep)"

text \<open>The thirteen calls of \<^verbatim>\<open>Fprintf\<close> that write the fields of one proposal.\<close>

definition writeFields :: "Proposal \<Rightarrow> string" where
  "writeFields kep =
     fmtQuoted ''title'' (Title kep) @
     fmtQuoted ''owning-sig'' (OwningSIG kep) @
     fmtPlain ''participating-sigs'' (marshal (ParticipatingSIGs kep)) @
     fmtPlain ''reviewers'' (marshal (Reviewers kep)) @
     fmtPlain ''authors'' (marshal (Authors kep)) @
     fmtQuoted ''editor'' (Editor kep) @
     fmtQuoted ''creation-date'' (CreationDate kep) @
     fmtQuoted ''last-updated'' (LastUpdated kep) @
     fmtQuoted ''status'' (Status kep) @
     fmtPlain ''see-also'' (marshal (SeeAlso kep)) @
     fmtPlain ''replaces'' (marshal (Replaces kep)) @
     fmtPlain ''superseded-by'' (marshal (SupersededBy kep)) @
     fmtLast ''markdown'' (json_Marshal_string (Contents kep))"

text \<open>The body of the loop of \<^verbatim>\<open>printJSONOutput\<close> up to the closing brace of the member.\<close>

definition writeKep :: "Proposal \<Rightarrow> string" where
  "writeKep kep = fmtKey (identifierOf kep) @ writeFields kep"

text \<open>The closing brace: \<^verbatim>\<open>if i < total-1\<close>, on Go's signed \<^verbatim>\<open>int\<close>.\<close>

definition closeKep :: "int \<Rightarrow> int \<Rightarrow> string" where
  "closeKep i tot = (if i < tot - 1 then TAB @ ''},'' @ NL else TAB @ ''}'' @ NL)"

text \<open>\<^verbatim>\<open>for i, kep := range proposals\<close>, from index \<open>i\<close> on.\<close>

fun rangeKeps :: "int \<Rightarrow> int \<Rightarrow> Proposal list \<Rightarrow> string" where
  "rangeKeps tot i [] = []"
| "rangeKeps tot i (kep # rest) =
     writeKep kep @ closeKep i tot @ rangeKeps tot (i + 1) rest"

text \<open>What \<^verbatim>\<open>printJSONOutput\<close> writes to the file it created.\<close>

definition fileText :: "Proposal list \<Rightarrow> string" where
  "fileText proposals =
     ''{'' @ NL @ rangeKeps (int (length proposals)) 0 proposals @ ''}'' @ NL"

subsection \<open>The world outside the program\<close>

text \<open>
  One call of the function \<^verbatim>\<open>filepath.Walk\<close> is given: the path, the
  \<^verbatim>\<open>FileInfo\<close> (its \<^verbatim>\<open>Name()\<close> and \<^verbatim>\<open>IsDir()\<close>) and the error.
\<close>

record visit =
  v_path :: string
  v_name :: string
  v_isDir :: bool
  v_err :: "string option"

text \<open>
  The command line and everything the program asks of the operating system and of the
  \<^verbatim>\<open>keps\<close> package:
  \<^item> \<open>flag_dir\<close>, \<open>flag_output\<close>: the values of \<^verbatim>\<open>-dir\<close> and \<^verbatim>\<open>-output\<close>;
  \<^item> \<open>stat_IsNotExist p\<close>: \<^verbatim>\<open>os.IsNotExist\<close> of the error of \<^verbatim>\<open>os.Stat(p)\<close>;
  \<^item> \<open>walk_calls p\<close>: the calls \<^verbatim>\<open>filepath.Walk(p, fn)\<close> makes of \<open>fn\<close>, in
    its order, as long as \<open>fn\<close> returns \<^verbatim>\<open>nil\<close>;
  \<^item> \<open>os_Open p\<close>: the error of \<^verbatim>\<open>os.Open(p)\<close>, or the contents of the file;
  \<^item> \<open>Parse c\<close>: the proposal \<^verbatim>\<open>keps.Parser.Parse\<close> reads from contents \<open>c\<close>;
  \<^item> \<open>os_Create p\<close>: the error of \<^verbatim>\<open>os.Create(p)\<close>, if any;
  \<^item> \<open>Quote\<close>: \<^verbatim>\<open>strconv.Quote\<close>, the verb \<^verbatim>\<open>%q\<close>.
\<close>

record world =
  flag_dir :: string
  flag_output :: string
  stat_IsNotExist :: "string \<Rightarrow> bool"
  walk_calls :: "string \<Rightarrow> visit list"
  os_Open :: "string \<Rightarrow> string + string"
  Parse :: "string \<Rightarrow> Proposal"
  os_Create :: "string \<Rightarrow> string option"
  Quote :: "string \<Rightarrow> string"

text \<open>
  What a run leaves: the exit status, the two streams, and the file it created with the
  text it wrote there (\<open>None\<close>: no file was created). Writes to an open file
  are taken to succeed: the program drops their errors.
\<close>

record outcome =
  exit_status :: nat
  stdout :: string
  stderr :: string
  created :: "(string \<times> string) option"

subsection \<open>findMarkdownFiles\<close>

text \<open>
  \<^verbatim>\<open>filepath.Walk\<close> calls the function at every file and directory and stops at the
  first call that returns an error, which it returns. The state \<open>s\<close> is what the
  closure captures.
\<close>

fun Walk :: "visit list \<Rightarrow> (visit \<Rightarrow> 's \<Rightarrow> 's \<times> string option) \<Rightarrow> 's \<Rightarrow> 's \<times> string option" where
  "Walk [] fn s = (s, None)"
| "Walk (v # vs) fn s =
     (case fn v s of
        (s', Some e) \<Rightarrow> (s', Some e)
      | (s', None) \<Rightarrow> Walk vs fn s')"

text \<open>The function literal of \<^verbatim>\<open>findMarkdownFiles\<close>; it captures \<^verbatim>\<open>files\<close>.\<close>

definition walkFn :: "visit \<Rightarrow> string list \<Rightarrow> string list \<times> string option" where
  "walkFn v files =
     (case v_err v of
        Some e \<Rightarrow> (files, Some e)
      | None \<Rightarrow>
          if v_isDir v then (files, None)
          else if ignore (v_name v) then (files, None)
          else (files @ [v_path v], None))"

definition findMarkdownFiles :: "world \<Rightarrow> string \<Rightarrow> string list \<times> string option" where
  "findMarkdownFiles w dirPath = Walk (walk_calls w dirPath) walkFn []"

subsection \<open>parseFiles\<close>

text \<open>
  The loop of \<^verbatim>\<open>parseFiles\<close> from one file on, with the proposals collected so far
  and what it has printed. The result is what the function printed, and the error it
  returns (\<open>Inl\<close>) or the proposals (\<open>Inr\<close>).
\<close>

fun parseLoop ::
  "world \<Rightarrow> string list \<Rightarrow> Proposal list \<Rightarrow> string \<Rightarrow> string \<times> (string + Proposal list)" where
  "parseLoop w [] proposals out = (out, Inr proposals)"
| "parseLoop w (filename # rest) proposals out =
     (case os_Open w filename of
        Inl e \<Rightarrow> (out, Inl (''could not open file: '' @ e @ NL))
      | Inr file \<Rightarrow>
          let kep = Parse w file in
          case Error kep of
            Some msg \<Rightarrow> (out, Inl (filename @ '' has an error: '' @ Quote w msg @ NL))
          | None \<Rightarrow>
              parseLoop w rest (AddProposal proposals kep)
                (out @ ''>>>> parsed file successfully: '' @ filename @ NL))"

definition parseFiles :: "world \<Rightarrow> string list \<Rightarrow> string \<times> (string + Proposal list)" where
  "parseFiles w files = parseLoop w files [] []"

subsection \<open>printJSONOutput and main\<close>

text \<open>
  \<^verbatim>\<open>printJSONOutput\<close>: what it printed, the file it created with its text, and the
  error it returns.
\<close>

definition printJSONOutput ::
  "world \<Rightarrow> string \<Rightarrow> Proposal list \<Rightarrow> string \<times> (string \<times> string) option \<times> string option" where
  "printJSONOutput w filePath proposals =
     (case os_Create w filePath of
        Some e \<Rightarrow> (''Output file: '' @ filePath @ NL, None, Some e)
      | None \<Rightarrow>
          (''Output file: '' @ filePath @ NL @
           ''Total KEPs: '' @ decimal (length proposals) @ NL,
           Some (filePath, fileText proposals), None))"

text \<open>\<^verbatim>\<open>main\<close>, from \<^verbatim>\<open>flag.Parse()\<close> on; \<^verbatim>\<open>os.Exit(1)\<close> ends the run.\<close>

definition main :: "world \<Rightarrow> outcome" where
  "main w =
     (let dirPath = flag_dir w; filePath = flag_output w in
      if length dirPath = 0 then
        \<lparr>exit_status = 1, stdout = [],
         stderr = ''please specify the root directory for KEPs using '' @ SQ @ ''--dir'' @ SQ @ NL,
         created = None\<rparr>
      else if stat_IsNotExist w dirPath then
        \<lparr>exit_status = 1, stdout = ''directory does not exist : '' @ dirPath,
         stderr = [], created = None\<rparr>
      else if length filePath = 0 then
        \<lparr>exit_status = 1, stdout = [],
         stderr = ''please specify the file path for the output json using '' @ SQ @
                  ''--output'' @ SQ @ NL,
         created = None\<rparr>
      else
        case findMarkdownFiles w dirPath of
          (files, Some e) \<Rightarrow>
            \<lparr>exit_status = 1, stdout = [],
             stderr = ''unable to find markdown files: '' @ e @ NL, created = None\<rparr>
        | (files, None) \<Rightarrow>
            if length files = 0 then
              \<lparr>exit_status = 1, stdout = [],
               stderr = ''did not find any KEPs'' @ NL, created = None\<rparr>
            else
              case parseFiles w files of
                (out, Inl e) \<Rightarrow>
                  \<lparr>exit_status = 1, stdout = out,
                   stderr = ''error parsing files: '' @ Quote w e @ NL, created = None\<rparr>
              | (out, Inr proposals) \<Rightarrow>
                  (case printJSONOutput w filePath proposals of
                     (out', file, Some e) \<Rightarrow>
                       \<lparr>exit_status = 1, stdout = out @ out',
                        stderr = ''could not open file: '' @ e @ NL, created = file\<rparr>
                   | (out', file, None) \<Rightarrow>
                       \<lparr>exit_status = 0, stdout = out @ out', stderr = [], created = file\<rparr>))"

subsection \<open>JSON texts\<close>

text \<open>
  The spec asks for ``syntactically valid JSON'' and ``JSON strings''. This is the
  grammar of RFC 8259 as a recogniser: each function reads one construct at the head
  of its input and returns what follows it, or \<open>None\<close>.
\<close>

definition isWS :: "char \<Rightarrow> bool" where
  "isWS c = (c = CHR 0x20 \<or> c = CHR 0x09 \<or> c = CHR 0x0A \<or> c = CHR 0x0D)"

fun skipWS :: "string \<Rightarrow> string" where
  "skipWS [] = []"
| "skipWS (c # cs) = (if isWS c then skipWS cs else c # cs)"

definition isHexDigit :: "char \<Rightarrow> bool" where
  "isHexDigit c = (c \<in> set ''0123456789abcdefABCDEF'')"

definition isDigit :: "char \<Rightarrow> bool" where
  "isDigit c = (c \<in> set ''0123456789'')"

text \<open>
  A string, after its opening quote: characters from the space on other than the quote
  and the backslash, and the escapes \<^verbatim>\<open>\" \\ \/ \b \f \n \r \t \uXXXX\<close>, up to the
  closing quote. The bytes from 0x80 on are taken as they come: that they form UTF-8 is
  not checked.
\<close>

fun scanString :: "string \<Rightarrow> string option" where
  "scanString [] = None"
| "scanString (c # cs) =
     (if c = CHR 0x22 then Some cs
      else if c = CHR 0x5C then
        (case cs of
           [] \<Rightarrow> None
         | e # r \<Rightarrow>
             if e \<in> set (''bfnrt/'' @ DQ @ BSL) then scanString r
             else if e = CHR ''u'' then
               (case r of
                  h1 # h2 # h3 # h4 # r' \<Rightarrow>
                    if isHexDigit h1 \<and> isHexDigit h2 \<and> isHexDigit h3 \<and> isHexDigit h4
                    then scanString r' else None
                | _ \<Rightarrow> None)
             else None)
      else if (of_char c :: nat) < 0x20 then None
      else scanString cs)"

text \<open>A number: an optional minus, the integer part, an optional fraction and exponent.\<close>

fun skipDigits :: "string \<Rightarrow> string" where
  "skipDigits [] = []"
| "skipDigits (c # cs) = (if isDigit c then skipDigits cs else c # cs)"

definition scanDigits1 :: "string \<Rightarrow> string option" where
  "scanDigits1 s = (case s of [] \<Rightarrow> None | c # cs \<Rightarrow> if isDigit c then Some (skipDigits cs) else None)"

definition scanInt :: "string \<Rightarrow> string option" where
  "scanInt s =
     (case s of
        [] \<Rightarrow> None
      | c # cs \<Rightarrow> if c = CHR ''0'' then Some cs else scanDigits1 (c # cs))"

definition scanFrac :: "string \<Rightarrow> string option" where
  "scanFrac s =
     (case s of
        [] \<Rightarrow> Some []
      | c # cs \<Rightarrow> if c = CHR ''.'' then scanDigits1 cs else Some (c # cs))"

definition scanExp :: "string \<Rightarrow> string option" where
  "scanExp s =
     (case s of
        [] \<Rightarrow> Some []
      | c # cs \<Rightarrow>
          if c = CHR ''e'' \<or> c = CHR ''E'' then
            (case cs of
               [] \<Rightarrow> None
             | d # ds \<Rightarrow> if d = CHR ''+'' \<or> d = CHR ''-'' then scanDigits1 ds else scanDigits1 (d # ds))
          else Some (c # cs))"

definition scanNumber :: "string \<Rightarrow> string option" where
  "scanNumber s =
     (case (case s of [] \<Rightarrow> None | c # cs \<Rightarrow> if c = CHR ''-'' then scanInt cs else scanInt (c # cs)) of
        None \<Rightarrow> None
      | Some r \<Rightarrow> (case scanFrac r of None \<Rightarrow> None | Some r' \<Rightarrow> scanExp r'))"

definition scanLiteral :: "string \<Rightarrow> string option" where
  "scanLiteral s =
     (if take 4 s = ''true'' then Some (drop 4 s)
      else if take 5 s = ''false'' then Some (drop 5 s)
      else if take 4 s = ''null'' then Some (drop 4 s)
      else scanNumber s)"

text \<open>
  A value, the members of an object after its brace and the elements of an array after
  its bracket. The first argument bounds the nesting of the calls: an array takes two
  nested calls and at least two characters, a member or an element one call and at least
  one character, so \<open>validJSON\<close> below gives the length of the text and one more.
\<close>

fun jsonValue :: "nat \<Rightarrow> string \<Rightarrow> string option"
  and jsonMembers :: "nat \<Rightarrow> string \<Rightarrow> string option"
  and jsonElements :: "nat \<Rightarrow> string \<Rightarrow> string option" where
  "jsonValue 0 s = None"
| "jsonValue (Suc n) s =
     (case skipWS s of
        [] \<Rightarrow> None
      | c # cs \<Rightarrow>
          if c = CHR ''{'' then
            (case skipWS cs of
               [] \<Rightarrow> None
             | d # ds \<Rightarrow> if d = CHR ''}'' then Some ds else jsonMembers n (d # ds))
          else if c = CHR ''['' then
            (case skipWS cs of
               [] \<Rightarrow> None
             | d # ds \<Rightarrow> if d = CHR '']'' then Some ds else jsonElements n (d # ds))
          else if c = CHR 0x22 then scanString cs
          else scanLiteral (c # cs))"
| "jsonMembers 0 s = None"
| "jsonMembers (Suc n) s =
     (case skipWS s of
        [] \<Rightarrow> None
      | c # cs \<Rightarrow>
          if c = CHR 0x22 then
            (case scanString cs of
               None \<Rightarrow> None
             | Some r \<Rightarrow>
                 (case skipWS r of
                    [] \<Rightarrow> None
                  | d # ds \<Rightarrow>
                      if d = CHR '':'' then
                        (case jsonValue n ds of
                           None \<Rightarrow> None
                         | Some r' \<Rightarrow>
                             (case skipWS r' of
                                [] \<Rightarrow> None
                              | e # es \<Rightarrow>
                                  if e = CHR '','' then jsonMembers n es
                                  else if e = CHR ''}'' then Some es
                                  else None))
                      else None))
          else None)"
| "jsonElements 0 s = None"
| "jsonElements (Suc n) s =
     (case jsonValue n s of
        None \<Rightarrow> None
      | Some r \<Rightarrow>
          (case skipWS r of
             [] \<Rightarrow> None
           | e # es \<Rightarrow>
               if e = CHR '','' then jsonElements n es
               else if e = CHR '']'' then Some es
               else None))"

text \<open>A JSON text is one value, with nothing but white space after it.\<close>

definition validJSON :: "string \<Rightarrow> bool" where
  "validJSON s = (case jsonValue (Suc (length s)) s of None \<Rightarrow> False | Some r \<Rightarrow> skipWS r = [])"

text \<open>
  A character that stands for itself in a JSON string: not the quote, not the backslash,
  not a control character.
\<close>

definition unescaped :: "char \<Rightarrow> bool" where
  "unescaped c = (c \<noteq> CHR 0x22 \<and> c \<noteq> CHR 0x5C \<and> 0x20 \<le> (of_char c :: nat))"

text \<open>A proposal whose six scalar fields hold such characters only.\<close>

definition scalarsUnescaped :: "Proposal \<Rightarrow> bool" where
  "scalarsUnescaped kep =
     (list_all unescaped (Title kep) \<and> list_all unescaped (OwningSIG kep) \<and>
      list_all unescaped (Editor kep) \<and> list_all unescaped (CreationDate kep) \<and>
      list_all unescaped (LastUpdated kep) \<and> list_all unescaped (Status kep))"

text \<open>A JSON string: a quote, and the rest read by \<open>scanString\<close> to the end.\<close>

definition isJSONString :: "string \<Rightarrow> bool" where
  "isJSONString s = (case s of [] \<Rightarrow> False | c # cs \<Rightarrow> c = CHR 0x22 \<and> scanString cs = Some [])"

text \<open>
  The keys of the top-level members of a JSON object, in the order of the text. This is
  \<open>jsonMembers\<close> again, keeping for each member the characters between the quotes of its
  key, as they are written; the value of a member is read by \<open>jsonValue\<close>.
  \<open>topKeys\<close> reads a whole text: an object, with nothing but white space after it.
\<close>

definition keyText :: "string \<Rightarrow> string \<Rightarrow> string" where
  "keyText cs r = take (length cs - length r - 1) cs"

fun topMembers :: "nat \<Rightarrow> string \<Rightarrow> (string list \<times> string) option" where
  "topMembers 0 s = None"
| "topMembers (Suc n) s =
     (case skipWS s of
        [] \<Rightarrow> None
      | c # cs \<Rightarrow>
          if c = CHR 0x22 then
            (case scanString cs of
               None \<Rightarrow> None
             | Some r \<Rightarrow>
                 (case skipWS r of
                    [] \<Rightarrow> None
                  | d # ds \<Rightarrow>
                      if d = CHR '':'' then
                        (case jsonValue n ds of
                           None \<Rightarrow> None
                         | Some r' \<Rightarrow>
                             (case skipWS r' of
                                [] \<Rightarrow> None
                              | e # es \<Rightarrow>
                                  if e = CHR '','' then
                                    (case topMembers n es of
                                       None \<Rightarrow> None
                                     | Some (ks, rest) \<Rightarrow> Some (keyText cs r # ks, rest))
                                  else if e = CHR ''}'' then Some ([keyText cs r], es)
                                  else None))
                      else None))
          else None)"

definition topKeys :: "string \<Rightarrow> string list option" where
  "topKeys s =
     (case skipWS s of
        [] \<Rightarrow> None
      | c # cs \<Rightarrow>
          if c = CHR ''{'' then
            (case skipWS cs of
               [] \<Rightarrow> None
             | d # ds \<Rightarrow>
                 if d = CHR ''}'' then (if skipWS ds = [] then Some [] else None)
                 else
                   (case topMembers (length s) (d # ds) of
                      None \<Rightarrow> None
                    | Some (ks, rest) \<Rightarrow> if skipWS rest = [] then Some ks else None))
          else None)"

subsection \<open>The words of the spec\<close>

text \<open>The fixed ignore-list, and the documents a walk discovers before its first error.\<close>

definition ignoreList :: "string list" where
  "ignoreList =
     [''0023-documentation-for-images.md'', ''0004-cloud-provider-template.md'',
      ''0001a-meta-kep-implementation.md'',
      ''0001-kubernetes-enhancement-proposal-process.md'',
      ''YYYYMMDD-kep-template.md'', ''README.md'', ''kep-faq.md'']"

definition eligible :: "visit \<Rightarrow> bool" where
  "eligible v = (\<not> v_isDir v \<and> v_name v \<notin> set ignoreList \<and> HasSuffix (v_name v) ''md'')"

definition noError :: "visit \<Rightarrow> bool" where
  "noError v = (v_err v = None)"

definition discovered :: "visit list \<Rightarrow> string list" where
  "discovered calls = map v_path (filter eligible (takeWhile noError calls))"

definition firstError :: "visit list \<Rightarrow> string option" where
  "firstError calls = (case dropWhile noError calls of [] \<Rightarrow> None | v # _ \<Rightarrow> v_err v)"

text \<open>The top-level members of the emitted object, one text for each proposal.\<close>

definition members :: "Proposal list \<Rightarrow> string list" where
  "members ps =
     map (\<lambda>n. writeKep (ps ! n) @ closeKep (int n) (int (length ps))) [0..<length ps]"

text \<open>The contents of the files of a list, in its order, and the line printed for each.\<close>

definition contentsOf :: "world \<Rightarrow> string \<Rightarrow> string" where
  "contentsOf w f = (case os_Open w f of Inl e \<Rightarrow> [] | Inr c \<Rightarrow> c)"

definition parsesFine :: "world \<Rightarrow> string \<Rightarrow> bool" where
  "parsesFine w f =
     (case os_Open w f of Inl e \<Rightarrow> False | Inr c \<Rightarrow> Error (Parse w c) = None)"

definition progress :: "string list \<Rightarrow> string" where
  "progress files = concat (map (\<lambda>f. ''>>>> parsed file successfully: '' @ f @ NL) files)"

subsection \<open>A small run\<close>

text \<open>
  One proposal, and a world with a directory \<^verbatim>\<open>keps\<close> whose files are given by the
  calls of the walk: \<^verbatim>\<open>a.md\<close> and \<^verbatim>\<open>b.md\<close> parse to two proposals with the same
  owning SIG and title and different bodies, \<^verbatim>\<open>q.md\<close> to a proposal whose title
  holds two quotes, \<^verbatim>\<open>0.md\<close> to a proposal whose title is
  \<^verbatim>\<open>A"}, "injected": {"title": "B\<close>, and \<^verbatim>\<open>c.md\<close> has no title.
\<close>

definition exampleKep :: Proposal where
  "exampleKep =
     \<lparr>Title = ''Foo'', OwningSIG = ''sig-x'', ParticipatingSIGs = None,
      Reviewers = Some [''alice'', ''bob''], Authors = Some [], Editor = ''TBD'',
      CreationDate = ''2020-01-01'', LastUpdated = ''2020-01-02'', Status = ''draft'',
      SeeAlso = None, Replaces = None, SupersededBy = None,
      Contents = ''Hello'' @ NL @ ''World'', Error = None\<rparr>"

definition quotedKep :: Proposal where
  "quotedKep = exampleKep\<lparr>Title := ''Say '' @ DQ @ ''hi'' @ DQ\<rparr>"

definition injectedKep :: Proposal where
  "injectedKep =
     exampleKep\<lparr>Title := ''A'' @ DQ @ ''}, '' @ DQ @ ''injected'' @ DQ @ '': {'' @
                          DQ @ ''title'' @ DQ @ '': '' @ DQ @ ''B''\<rparr>"

definition exampleParse :: "string \<Rightarrow> Proposal" where
  "exampleParse c =
     (if c = ''A'' then exampleKep
      else if c = ''B'' then exampleKep\<lparr>Contents := ''Other''\<rparr>
      else if c = ''Q'' then quotedKep
      else if c = ''I'' then injectedKep
      else exampleKep\<lparr>Title := [], Error := Some ''missing title''\<rparr>)"

definition exampleOpen :: "string \<Rightarrow> string + string" where
  "exampleOpen p =
     (if p = ''keps/a.md'' then Inr ''A''
      else if p = ''keps/b.md'' then Inr ''B''
      else if p = ''keps/c.md'' then Inr ''C''
      else if p = ''keps/q.md'' then Inr ''Q''
      else if p = ''keps/0.md'' then Inr ''I''
      else Inl (''open '' @ p @ '': no such file or directory''))"

definition exampleQuote :: "string \<Rightarrow> string" where
  "exampleQuote s =
     DQ @ concat (map (\<lambda>c. if c = CHR 0x0A then BSL @ ''n''
                            else if c = CHR 0x22 \<or> c = CHR 0x5C then BSL @ [c]
                            else [c]) s) @ DQ"

definition exampleWorld :: "visit list \<Rightarrow> world" where
  "exampleWorld calls =
     \<lparr>flag_dir = ''keps'', flag_output = ''keps.json'',
      stat_IsNotExist = (\<lambda>p. p \<noteq> ''keps''),
      walk_calls = (\<lambda>p. if p = ''keps'' then calls else []),
      os_Open = exampleOpen, Parse = exampleParse,
      os_Create = (\<lambda>p. None), Quote = exampleQuote\<rparr>"

definition dirAt :: "string \<Rightarrow> string \<Rightarrow> visit" where
  "dirAt p n = \<lparr>v_path = p, v_name = n, v_isDir = True, v_err = None\<rparr>"

definition fileAt :: "string \<Rightarrow> string \<Rightarrow> visit" where
  "fileAt p n = \<lparr>v_path = p, v_name = n, v_isDir = False, v_err = None\<rparr>"

section \<open>Properties\<close>

subsection \<open>Discovery\<close>

lemma HasSuffix_md: "HasSuffix name ''md'' \<longleftrightarrow> (\<exists>stem. name = stem @ ''md'')"
proof
  assume "HasSuffix name ''md''"
  then have "name = take (length name - 2) name @ ''md''"
    by (metis HasSuffix_def append_take_drop_id length_Cons list.size(3) numeral_2_eq_2)
  then show "\<exists>stem. name = stem @ ''md''" ..
next
  assume "\<exists>stem. name = stem @ ''md''"
  then show "HasSuffix name ''md''" by (auto simp: HasSuffix_def)
qed

lemma ignore_eligible: "\<not> v_isDir v \<and> \<not> ignore (v_name v) \<longleftrightarrow> eligible v"
  unfolding ignore_def ignoreList_def eligible_def by auto

lemma walkFn_noError:
  "noError v \<Longrightarrow> walkFn v files = (if eligible v then files @ [v_path v] else files, None)"
  using ignore_eligible [of v] by (auto simp: walkFn_def noError_def)

lemma walkFn_error: "\<not> noError v \<Longrightarrow> walkFn v files = (files, v_err v)"
  by (auto simp: walkFn_def noError_def)

lemma Walk_walkFn:
  "Walk calls walkFn files = (files @ discovered calls, firstError calls)"
proof (induction calls arbitrary: files)
  case Nil
  show ?case by (simp add: discovered_def firstError_def)
next
  case (Cons v vs)
  show ?case
  proof (cases "noError v")
    case True
    then show ?thesis
      using Cons.IH by (simp add: walkFn_noError discovered_def firstError_def)
  next
    case False
    then obtain e where "v_err v = Some e" by (auto simp: noError_def)
    with False show ?thesis
      by (simp add: walkFn_error discovered_def firstError_def)
  qed
qed

lemma findMarkdownFiles_eq:
  "findMarkdownFiles w d = (discovered (walk_calls w d), firstError (walk_calls w d))"
  by (simp add: findMarkdownFiles_def Walk_walkFn)

text \<open>
  C9: the file discovery step yields exactly the paths of the calls of the walk that are
  not directories, whose name is not one of the seven names of the ignore-list and whose
  name ends in \<^verbatim>\<open>md\<close>, in the order of the walk. The walk stops at the first call
  that carries an error; the paths found before it are returned with that error.
\<close>

theorem findMarkdownFiles_yields:
  "findMarkdownFiles w dirPath =
     (map v_path
        (filter (\<lambda>v. \<not> v_isDir v \<and> v_name v \<notin> set ignoreList \<and> HasSuffix (v_name v) ''md'')
           (takeWhile (\<lambda>v. v_err v = None) (walk_calls w dirPath))),
      firstError (walk_calls w dirPath))"
proof -
  have "eligible = (\<lambda>v. \<not> v_isDir v \<and> v_name v \<notin> set ignoreList \<and> HasSuffix (v_name v) ''md'')"
    by (rule ext) (simp add: eligible_def)
  moreover have "noError = (\<lambda>v. v_err v = None)"
    by (rule ext) (simp add: noError_def)
  ultimately show ?thesis
    by (simp add: findMarkdownFiles_eq discovered_def)
qed

text \<open>
  C10: the extension test is a test for the two characters \<^verbatim>\<open>md\<close> at the end of
  the name, with no dot: a file that is not a directory, whose name ends in
  \<^verbatim>\<open>md\<close> and is not in the ignore-list, is not ignored and is among the files found,
  \<^verbatim>\<open>roadmd\<close> for one.
\<close>

theorem bare_suffix_included:
  assumes "v \<in> set (walk_calls w dirPath)" and "list_all noError (walk_calls w dirPath)"
    and "\<not> v_isDir v" and "v_name v = stem @ ''md''" and "v_name v \<notin> set ignoreList"
  shows "\<not> ignore (v_name v) \<and> v_path v \<in> set (fst (findMarkdownFiles w dirPath))"
proof -
  from assms(4) have "HasSuffix (v_name v) ''md''" by (auto simp: HasSuffix_md)
  with assms(3,5) have e: "eligible v" by (simp add: eligible_def)
  from assms(2) have "takeWhile noError (walk_calls w dirPath) = walk_calls w dirPath"
    by (simp add: takeWhile_eq_all_conv list_all_iff)
  then have "discovered (walk_calls w dirPath) = map v_path (filter eligible (walk_calls w dirPath))"
    by (simp only: discovered_def)
  moreover from e assms(1) have "v \<in> set (filter eligible (walk_calls w dirPath))"
    by simp
  ultimately have "v_path v \<in> set (discovered (walk_calls w dirPath))"
    by (metis image_eqI set_map)
  with e ignore_eligible [of v] show ?thesis
    by (simp add: findMarkdownFiles_eq)
qed

theorem bare_suffix_included_witness:
  "\<not> ignore ''roadmd'' \<and>
   ''keps/roadmd'' \<in> set (fst (findMarkdownFiles
      (exampleWorld [dirAt ''keps'' ''keps'', fileAt ''keps/roadmd'' ''roadmd'']) ''keps''))"
  using bare_suffix_included [of "fileAt ''keps/roadmd'' ''roadmd''"
      "exampleWorld [dirAt ''keps'' ''keps'', fileAt ''keps/roadmd'' ''roadmd'']" "''keps''" "''road''"]
  by (simp add: exampleWorld_def fileAt_def dirAt_def noError_def ignoreList_def)

subsection \<open>Parsing and the run\<close>

lemma parseLoop_fine:
  "list_all (parsesFine w) files \<Longrightarrow>
   parseLoop w files ps out =
     (out @ progress files, Inr (ps @ map (\<lambda>f. Parse w (contentsOf w f)) files))"
proof (induction files arbitrary: ps out)
  case Nil
  show ?case by (simp add: progress_def)
next
  case (Cons f fs)
  from Cons.prems obtain c where c: "os_Open w f = Inr c" "Error (Parse w c) = None"
    by (auto simp: parsesFine_def split: sum.splits)
  from Cons.prems have "list_all (parsesFine w) fs" by simp
  from Cons.IH [OF this] c show ?case
    by (simp add: progress_def contentsOf_def AddProposal_def)
qed

lemma parseLoop_Inr_fine:
  "parseLoop w files ps out = (out', Inr ps') \<Longrightarrow> list_all (parsesFine w) files"
proof (induction files arbitrary: ps out)
  case Nil
  show ?case by simp
next
  case (Cons f fs)
  from Cons.prems obtain c where c: "os_Open w f = Inr c"
    by (cases "os_Open w f") auto
  with Cons.prems have e: "Error (Parse w c) = None"
    by (cases "Error (Parse w c)") auto
  with c Cons.prems have "parseLoop w fs (AddProposal ps (Parse w c))
      (out @ ''>>>> parsed file successfully: '' @ f @ NL) = (out', Inr ps')"
    by simp
  then have "list_all (parsesFine w) fs" by (rule Cons.IH)
  moreover from c e have "parsesFine w f" by (simp add: parsesFine_def)
  ultimately show ?case by simp
qed

lemma parseLoop_first_error:
  assumes "list_all (parsesFine w) pre" and "os_Open w f = Inr c" and "Error (Parse w c) = Some msg"
  shows "parseLoop w (pre @ f # post) ps out =
           (out @ progress pre, Inl (f @ '' has an error: '' @ Quote w msg @ NL))"
  using assms(1)
proof (induction pre arbitrary: ps out)
  case Nil
  show ?case using assms(2,3) by (simp add: progress_def)
next
  case (Cons g gs)
  from Cons.prems obtain d where d: "os_Open w g = Inr d" "Error (Parse w d) = None"
    by (auto simp: parsesFine_def split: sum.splits)
  from Cons.prems have "list_all (parsesFine w) gs" by simp
  from Cons.IH [OF this] d show ?case
    by (simp add: progress_def)
qed

lemma parseFiles_fine:
  "list_all (parsesFine w) files \<Longrightarrow>
   parseFiles w files = (progress files, Inr (map (\<lambda>f. Parse w (contentsOf w f)) files))"
  by (simp add: parseFiles_def parseLoop_fine)

lemma parseFiles_Inr_fine:
  "parseFiles w files = (out, Inr ps) \<Longrightarrow> list_all (parsesFine w) files"
  unfolding parseFiles_def by (rule parseLoop_Inr_fine)

lemma parseFiles_first_error:
  assumes "list_all (parsesFine w) pre" and "os_Open w f = Inr c" and "Error (Parse w c) = Some msg"
  shows "parseFiles w (pre @ f # post) =
           (progress pre, Inl (f @ '' has an error: '' @ Quote w msg @ NL))"
  using parseLoop_first_error [OF assms, of post "[]" "[]"] by (simp add: parseFiles_def)

lemma main_found:
  assumes "flag_dir w \<noteq> []" and "\<not> stat_IsNotExist w (flag_dir w)" and "flag_output w \<noteq> []"
    and "findMarkdownFiles w (flag_dir w) = (files, None)" and "files \<noteq> []"
  shows "main w =
     (case parseFiles w files of
        (out, Inl e) \<Rightarrow>
          \<lparr>exit_status = 1, stdout = out,
           stderr = ''error parsing files: '' @ Quote w e @ NL, created = None\<rparr>
      | (out, Inr proposals) \<Rightarrow>
          (case printJSONOutput w (flag_output w) proposals of
             (out', file, Some e) \<Rightarrow>
               \<lparr>exit_status = 1, stdout = out @ out',
                stderr = ''could not open file: '' @ e @ NL, created = file\<rparr>
           | (out', file, None) \<Rightarrow>
               \<lparr>exit_status = 0, stdout = out @ out', stderr = [], created = file\<rparr>))"
  using assms by (simp add: main_def)

lemma main_not_parsed:
  assumes "fst (findMarkdownFiles w (flag_dir w)) = []"
  shows "main w =
     (if flag_dir w = [] then
        \<lparr>exit_status = 1, stdout = [],
         stderr = ''please specify the root directory for KEPs using '' @ SQ @ ''--dir'' @ SQ @ NL,
         created = None\<rparr>
      else if stat_IsNotExist w (flag_dir w) then
        \<lparr>exit_status = 1, stdout = ''directory does not exist : '' @ flag_dir w,
         stderr = [], created = None\<rparr>
      else if flag_output w = [] then
        \<lparr>exit_status = 1, stdout = [],
         stderr = ''please specify the file path for the output json using '' @ SQ @
                  ''--output'' @ SQ @ NL,
         created = None\<rparr>
      else case snd (findMarkdownFiles w (flag_dir w)) of
          Some e \<Rightarrow>
            \<lparr>exit_status = 1, stdout = [],
             stderr = ''unable to find markdown files: '' @ e @ NL, created = None\<rparr>
        | None \<Rightarrow>
            \<lparr>exit_status = 1, stdout = [],
             stderr = ''did not find any KEPs'' @ NL, created = None\<rparr>)"
proof -
  obtain e where "findMarkdownFiles w (flag_dir w) = ([], e)"
    using assms by (cases "findMarkdownFiles w (flag_dir w)") simp
  then show ?thesis
    by (cases e) (simp_all add: main_def)
qed

lemma main_parse_error:
  assumes "flag_dir w \<noteq> []" and "\<not> stat_IsNotExist w (flag_dir w)" and "flag_output w \<noteq> []"
    and "findMarkdownFiles w (flag_dir w) = (files, None)" and "files \<noteq> []"
    and "parseFiles w files = (out, Inl e)"
  shows "main w = \<lparr>exit_status = 1, stdout = out,
           stderr = ''error parsing files: '' @ Quote w e @ NL, created = None\<rparr>"
  using assms by (simp add: main_def)

lemma main_success:
  assumes "flag_dir w \<noteq> []" and "\<not> stat_IsNotExist w (flag_dir w)" and "flag_output w \<noteq> []"
    and "findMarkdownFiles w (flag_dir w) = (files, None)" and "files \<noteq> []"
    and "parseFiles w files = (out, Inr ps)" and "os_Create w (flag_output w) = None"
  shows "main w =
     \<lparr>exit_status = 0,
      stdout = out @ ''Output file: '' @ flag_output w @ NL @
               ''Total KEPs: '' @ decimal (length ps) @ NL,
      stderr = [], created = Some (flag_output w, fileText ps)\<rparr>"
  using assms by (simp add: main_def printJSONOutput_def Let_def)

subsection \<open>Runs that end early\<close>

text \<open>
  C8: when the walk discovers no eligible document (every call before its first error is a
  directory, has a name of the ignore-list or a name that does not end in \<^verbatim>\<open>md\<close>),
  the run exits with status 1, prints a message and creates no file; nothing is opened or
  parsed, since the outcome is the same whatever \<^verbatim>\<open>os.Open\<close> and the parser would
  give. With both flags set, the directory present and no error of the walk, the message
  is \<^verbatim>\<open>did not find any KEPs\<close> on the standard error.
\<close>

theorem no_documents_exit:
  assumes "discovered (walk_calls w (flag_dir w)) = []"
  shows "exit_status (main w) = 1 \<and> created (main w) = None \<and>
         stdout (main w) @ stderr (main w) \<noteq> [] \<and>
         main (w\<lparr>os_Open := opn, Parse := prs\<rparr>) = main w \<and>
         (flag_dir w \<noteq> [] \<and> \<not> stat_IsNotExist w (flag_dir w) \<and> flag_output w \<noteq> [] \<and>
          firstError (walk_calls w (flag_dir w)) = None \<longrightarrow>
          main w = \<lparr>exit_status = 1, stdout = [], stderr = ''did not find any KEPs'' @ NL,
                    created = None\<rparr>)"
proof -
  let ?w' = "w\<lparr>os_Open := opn, Parse := prs\<rparr>"
  from assms have f: "fst (findMarkdownFiles w (flag_dir w)) = []"
    by (simp add: findMarkdownFiles_eq)
  have same: "findMarkdownFiles ?w' (flag_dir ?w') = findMarkdownFiles w (flag_dir w)"
    by (simp add: findMarkdownFiles_def)
  with f have f': "fst (findMarkdownFiles ?w' (flag_dir ?w')) = []" by simp
  have m: "main ?w' = main w"
    unfolding main_not_parsed [OF f] main_not_parsed [OF f'] same by simp
  have s: "snd (findMarkdownFiles w (flag_dir w)) = firstError (walk_calls w (flag_dir w))"
    by (simp add: findMarkdownFiles_eq)
  show ?thesis
    unfolding m unfolding main_not_parsed [OF f] s
    by (simp split: option.split)
qed

theorem no_documents_exit_witness:
  "main (exampleWorld [dirAt ''keps'' ''keps'', fileAt ''keps/README.md'' ''README.md'',
                       fileAt ''keps/notes.txt'' ''notes.txt'']) =
     \<lparr>exit_status = 1, stdout = [], stderr = ''did not find any KEPs'' @ NL, created = None\<rparr>"
  using no_documents_exit [of "exampleWorld [dirAt ''keps'' ''keps'',
      fileAt ''keps/README.md'' ''README.md'', fileAt ''keps/notes.txt'' ''notes.txt'']"]
  by (simp add: exampleWorld_def discovered_def firstError_def eligible_def noError_def
      dirAt_def fileAt_def ignoreList_def HasSuffix_def)

text \<open>
  C5: when a discovered document parses to a proposal with an error, the run exits with
  status 1 and creates no file. When all documents before it open and parse without error,
  the run stops there: it has printed the progress lines of the documents before it, and
  the message on the standard error names the file and quotes the parser's error; the
  documents after it play no part.
\<close>

theorem parse_error_aborts:
  assumes "flag_dir w \<noteq> []" and "\<not> stat_IsNotExist w (flag_dir w)" and "flag_output w \<noteq> []"
    and "findMarkdownFiles w (flag_dir w) = (files, None)"
    and "f \<in> set files" and "os_Open w f = Inr c" and "Error (Parse w c) = Some msg"
  shows "exit_status (main w) = 1 \<and> created (main w) = None \<and>
         (\<forall>pre post. files = pre @ f # post \<and> list_all (parsesFine w) pre \<longrightarrow>
            main w =
              \<lparr>exit_status = 1, stdout = progress pre,
               stderr = ''error parsing files: '' @
                        Quote w (f @ '' has an error: '' @ Quote w msg @ NL) @ NL,
               created = None\<rparr>)"
proof -
  from assms(5) have ne: "files \<noteq> []" by auto
  from assms(6,7) have bad: "\<not> parsesFine w f" by (simp add: parsesFine_def)
  obtain out r where pf: "parseFiles w files = (out, r)" by (cases "parseFiles w files")
  have "\<exists>e. r = Inl e"
  proof (cases r)
    case (Inl e)
    then show ?thesis by simp
  next
    case (Inr ps)
    with pf have "list_all (parsesFine w) files" by (simp add: parseFiles_Inr_fine)
    with assms(5) bad show ?thesis by (simp add: list_all_iff)
  qed
  then obtain e where "r = Inl e" ..
  with pf have "main w = \<lparr>exit_status = 1, stdout = out,
      stderr = ''error parsing files: '' @ Quote w e @ NL, created = None\<rparr>"
    using main_parse_error [OF assms(1-4) ne] by simp
  then have general: "exit_status (main w) = 1 \<and> created (main w) = None" by simp
  have first: "main w =
      \<lparr>exit_status = 1, stdout = progress pre,
       stderr = ''error parsing files: '' @
                Quote w (f @ '' has an error: '' @ Quote w msg @ NL) @ NL,
       created = None\<rparr>"
    if "files = pre @ f # post" and "list_all (parsesFine w) pre" for pre post
    using main_parse_error [OF assms(1-4) ne]
      parseFiles_first_error [OF that(2) assms(6,7), of post] that(1)
    by simp
  from general first show ?thesis by blast
qed

theorem parse_error_aborts_witness:
  "main (exampleWorld [dirAt ''keps'' ''keps'', fileAt ''keps/a.md'' ''a.md'',
                       fileAt ''keps/c.md'' ''c.md'', fileAt ''keps/b.md'' ''b.md'']) =
     \<lparr>exit_status = 1, stdout = progress [''keps/a.md''],
      stderr = ''error parsing files: '' @
               exampleQuote (''keps/c.md has an error: '' @ exampleQuote ''missing title'' @ NL) @ NL,
      created = None\<rparr>"
proof -
  let ?w = "exampleWorld [dirAt ''keps'' ''keps'', fileAt ''keps/a.md'' ''a.md'',
                          fileAt ''keps/c.md'' ''c.md'', fileAt ''keps/b.md'' ''b.md'']"
  have found: "findMarkdownFiles ?w (flag_dir ?w) = ([''keps/a.md'', ''keps/c.md'', ''keps/b.md''], None)"
    by (simp add: findMarkdownFiles_eq exampleWorld_def discovered_def firstError_def
        eligible_def noError_def dirAt_def fileAt_def ignoreList_def HasSuffix_def)
  have fine: "list_all (parsesFine ?w) [''keps/a.md'']"
    by (simp add: parsesFine_def exampleWorld_def exampleOpen_def exampleParse_def exampleKep_def)
  have t: "\<forall>pre post. [''keps/a.md'', ''keps/c.md'', ''keps/b.md''] = pre @ ''keps/c.md'' # post \<and>
            list_all (parsesFine ?w) pre \<longrightarrow>
            main ?w =
              \<lparr>exit_status = 1, stdout = progress pre,
               stderr = ''error parsing files: '' @
                        Quote ?w (''keps/c.md'' @ '' has an error: '' @ Quote ?w ''missing title'' @ NL) @ NL,
               created = None\<rparr>"
    using parse_error_aborts [of ?w "[''keps/a.md'', ''keps/c.md'', ''keps/b.md'']"
        "''keps/c.md''" "''C''" "''missing title''"] found
    by (simp add: exampleWorld_def exampleOpen_def exampleParse_def)
  have "[''keps/a.md'', ''keps/c.md'', ''keps/b.md''] = [''keps/a.md''] @ ''keps/c.md'' # [''keps/b.md'']"
    by simp
  with t fine have "main ?w =
      \<lparr>exit_status = 1, stdout = progress [''keps/a.md''],
       stderr = ''error parsing files: '' @
                Quote ?w (''keps/c.md'' @ '' has an error: '' @ Quote ?w ''missing title'' @ NL) @ NL,
       created = None\<rparr>"
    by blast
  then show ?thesis by (simp add: exampleWorld_def)
qed

subsection \<open>The identifier\<close>

lemma le_bytes32_length: "length (le_bytes32 w) = 4"
  by (simp add: le_bytes32_def)

lemma md5_Sum_length: "length (md5_Sum data) = 16"
  by (simp add: md5_Sum_def Let_def le_bytes32_length split: prod.splits)

lemma hexdigit_in: "n < 16 \<Longrightarrow> hexdigit n \<in> set ''0123456789abcdef''"
  unfolding hexdigit_def by (rule nth_mem) simp

lemma byte_nibbles: "unat (b :: byte) div 16 < 16" "unat (b :: byte) mod 16 < 16"
proof -
  have "unat b < 2 ^ LENGTH(8)" by (rule unsigned_less)
  then show "unat b div 16 < 16" by simp
  show "unat b mod 16 < 16" by simp
qed

lemma hexEncode_length: "length (hexEncode bs) = 2 * length bs"
  by (induction bs) (simp_all add: hexEncode_def)

lemma hexEncode_member:
  assumes "c \<in> set (hexEncode bs)"
  shows "c \<in> set ''0123456789abcdef''"
proof -
  from assms obtain b :: byte
    where "c = hexdigit (unat b div 16) \<or> c = hexdigit (unat b mod 16)"
    by (auto simp: hexEncode_def)
  then show ?thesis
    using hexdigit_in [OF byte_nibbles(1) [of b]] hexdigit_in [OF byte_nibbles(2) [of b]]
    by blast
qed

lemma hexEncode_set: "set (hexEncode bs) \<subseteq> set ''0123456789abcdef''"
  using hexEncode_member by blast

lemma hash_length: "length (hash s) = 32"
  by (simp add: hash_def hexEncode_length md5_Sum_length)

lemma hash_set: "set (hash s) \<subseteq> set ''0123456789abcdef''"
  unfolding hash_def by (rule hexEncode_set)

text \<open>
  C1: the key written for a record is the lower-case hexadecimal form (32 digits) of the
  MD5 checksum of \<^verbatim>\<open>OwningSIG + ":" + Title\<close>, and it is the first thing written for the
  record. Two records with the same owning SIG and title have the same key, whatever
  their other fields hold.
\<close>

theorem identifier_from_sig_and_title:
  "identifierOf kep = hexEncode (md5_Sum (bytes (OwningSIG kep @ '':'' @ Title kep))) \<and>
   writeKep kep = TAB @ DQ @ identifierOf kep @ DQ @ '': {'' @ NL @ writeFields kep \<and>
   length (identifierOf kep) = 32 \<and>
   set (identifierOf kep) \<subseteq> set ''0123456789abcdef'' \<and>
   (OwningSIG kep' = OwningSIG kep \<and> Title kep' = Title kep \<longrightarrow>
      identifierOf kep' = identifierOf kep)"
proof (intro conjI impI)
  show "identifierOf kep = hexEncode (md5_Sum (bytes (OwningSIG kep @ '':'' @ Title kep)))"
    by (simp add: identifierOf_def hash_def)
  show "writeKep kep = TAB @ DQ @ identifierOf kep @ DQ @ '': {'' @ NL @ writeFields kep"
    by (simp add: writeKep_def fmtKey_def)
  show "length (identifierOf kep) = 32"
    by (simp add: identifierOf_def hash_length)
  show "set (identifierOf kep) \<subseteq> set ''0123456789abcdef''"
    unfolding identifierOf_def by (rule hash_set)
  show "identifierOf kep' = identifierOf kep"
    if "OwningSIG kep' = OwningSIG kep \<and> Title kep' = Title kep"
    using that by (simp add: identifierOf_def)
qed

theorem identifier_from_sig_and_title_witness:
  "identifierOf (exampleKep\<lparr>Editor := ''someone else'', Reviewers := None, Contents := ''Other''\<rparr>)
     = identifierOf exampleKep"
  using identifier_from_sig_and_title
    [of exampleKep "exampleKep\<lparr>Editor := ''someone else'', Reviewers := None, Contents := ''Other''\<rparr>"]
  by simp

subsection \<open>The order of the members\<close>

lemma rangeKeps_eq:
  "rangeKeps tot i ps =
     concat (map (\<lambda>n. writeKep (ps ! n) @ closeKep (i + int n) tot) [0..<length ps])"
proof (induction ps arbitrary: i)
  case Nil
  show ?case by simp
next
  case (Cons p ps)
  have "[0..<length (p # ps)] = 0 # map Suc [0..<length ps]"
    by (simp add: upt_conv_Cons map_Suc_upt del: upt_Suc)
  then show ?case
    by (simp add: Cons.IH comp_def add.assoc del: upt_Suc)
qed

lemma fileText_members: "fileText ps = ''{'' @ NL @ concat (members ps) @ ''}'' @ NL"
  by (simp add: fileText_def members_def rangeKeps_eq)



lemma members_map:
  "members (map g files) =
     map (\<lambda>n. writeKep (g (files ! n)) @ closeKep (int n) (int (length files))) [0..<length files]"
  unfolding members_def by (rule map_cong) simp_all

text \<open>
  In a run that writes its file, the text between the braces of the top-level object is
  the concatenation of one piece for each discovered file, in the order of discovery: the
  piece at position \<open>n\<close> is the one written for the proposal parsed from the file at
  position \<open>n\<close>, closed with a comma but for the last. The proposals collected by
  \<^verbatim>\<open>parseFiles\<close> are in that order as well. No key is compared anywhere. This is
  the order of the pieces of the text; what members the text has when it is read as JSON
  is settled under ``The keys of the emitted object''.
\<close>

theorem members_follow_discovery:
  assumes "flag_dir w \<noteq> []" and "\<not> stat_IsNotExist w (flag_dir w)" and "flag_output w \<noteq> []"
    and "findMarkdownFiles w (flag_dir w) = (files, None)" and "files \<noteq> []"
    and "list_all (parsesFine w) files" and "os_Create w (flag_output w) = None"
  shows "parseFiles w files = (progress files, Inr (map (\<lambda>f. Parse w (contentsOf w f)) files)) \<and>
         exit_status (main w) = 0 \<and>
         created (main w) =
           Some (flag_output w,
                 ''{'' @ NL @
                 concat (map (\<lambda>n. writeKep (Parse w (contentsOf w (files ! n))) @
                                   closeKep (int n) (int (length files)))
                           [0..<length files]) @
                 ''}'' @ NL)"
proof -
  let ?ps = "map (\<lambda>f. Parse w (contentsOf w f)) files"
  have pf: "parseFiles w files = (progress files, Inr ?ps)"
    using assms(6) by (rule parseFiles_fine)
  have "main w =
     \<lparr>exit_status = 0,
      stdout = progress files @ ''Output file: '' @ flag_output w @ NL @
               ''Total KEPs: '' @ decimal (length ?ps) @ NL,
      stderr = [], created = Some (flag_output w, fileText ?ps)\<rparr>"
    using assms(1-5) pf assms(7) by (rule main_success)
  then have "exit_status (main w) = 0"
    and "created (main w) = Some (flag_output w, fileText ?ps)"
    by simp_all
  with pf show ?thesis
    by (simp only: fileText_members members_map)
qed



subsection \<open>What the encoder writes is JSON\<close>

lemma scanString_unescaped:
  "list_all unescaped xs \<Longrightarrow> scanString (xs @ ys) = scanString ys"
  by (induction xs) (simp_all add: unescaped_def)

lemma scanString_plain:
  "c \<noteq> CHR 0x22 \<Longrightarrow> c \<noteq> CHR 0x5C \<Longrightarrow> \<not> (of_char c :: nat) < 0x20 \<Longrightarrow>
   scanString (c # cs) = scanString cs"
  by simp

lemma scanString_high:
  "list_all (\<lambda>c. 0x80 \<le> (of_char c :: nat)) xs \<Longrightarrow> scanString (xs @ ys) = scanString ys"
proof (rule scanString_unescaped)
  assume "list_all (\<lambda>c. 0x80 \<le> (of_char c :: nat)) xs"
  then show "list_all unescaped xs"
    by (induction xs) (auto simp: unescaped_def)
qed

lemma isHexDigit_hexdigit: "n < 16 \<Longrightarrow> isHexDigit (hexdigit n)"
  unfolding isHexDigit_def using hexdigit_in [of n] by auto

lemma isHexDigit_literals:
  "isHexDigit CHR ''0''" "isHexDigit CHR ''2''" "isHexDigit CHR ''d''" "isHexDigit CHR ''f''"
  by (simp_all add: isHexDigit_def)

lemma htmlSafe_plain:
  "htmlSafe c \<Longrightarrow> c \<noteq> CHR 0x22 \<and> c \<noteq> CHR 0x5C \<and> \<not> (of_char c :: nat) < 0x20"
  by (auto simp: htmlSafe_def)

lemma scanString_escapeByte: "scanString (escapeByte c @ rest) = scanString rest"
proof -
  have "(of_char c :: nat) < 256" by (rule nat_of_char_less_256)
  then have d: "(of_char c :: nat) div 16 < 16" and m: "(of_char c :: nat) mod 16 < 16"
    by presburger+
  show ?thesis
    using isHexDigit_hexdigit [OF d] isHexDigit_hexdigit [OF m]
    by (simp add: escapeByte_def isHexDigit_literals)
qed

lemma DecodeRune_multi:
  assumes "DecodeRune (b0 # rest) = (r, n)" and "\<not> b0 < 0x80" and "\<not> (r = RuneError \<and> n = 1)"
  shows "2 \<le> n \<and> n \<le> Suc (length rest) \<and> list_all (\<lambda>b. 0x80 \<le> b) (take n (b0 # rest))"
proof -
  have n: "n = 2 \<or> n = 3 \<or> n = 4"
    using assms by (auto simp: DecodeRune_def Let_def split: if_splits)
  have len: "n \<le> Suc (length rest)"
    using assms by (auto simp: DecodeRune_def Let_def Suc_le_eq split: if_splits)
  have b1: "0x80 \<le> rest ! 0"
    using assms by (auto simp: DecodeRune_def Let_def split: if_splits)
  have b2: "0x80 \<le> rest ! 1" if "3 \<le> n"
    using assms that by (auto simp: DecodeRune_def Let_def contByte_def split: if_splits)
  have b3: "0x80 \<le> rest ! 2" if "4 \<le> n"
    using assms that by (auto simp: DecodeRune_def Let_def contByte_def split: if_splits)
  from n len obtain x xs where rest: "rest = x # xs" by (cases rest) auto
  from n show ?thesis
  proof (elim disjE)
    assume "n = 2"
    with len b1 assms(2) rest show ?thesis by simp
  next
    assume n3: "n = 3"
    with len rest obtain y ys where "xs = y # ys" by (cases xs) auto
    with n3 len b1 b2 assms(2) rest show ?thesis by (simp add: numeral_3_eq_3)
  next
    assume n4: "n = 4"
    with len rest obtain y ys where xs: "xs = y # ys" by (cases xs) auto
    with n4 len rest obtain z zs where "ys = z # zs" by (cases ys) auto
    with xs n4 len b1 b2 b3 assms(2) rest show ?thesis
      by (simp add: numeral_eq_Suc)
  qed
qed

lemma take_map_high:
  "list_all (\<lambda>b :: nat. 0x80 \<le> b) (take n (map of_char s)) \<Longrightarrow>
   list_all (\<lambda>c. 0x80 \<le> (of_char c :: nat)) (take n s)"
  by (simp add: take_map list_all_iff)

lemma scanString_encodeBody: "scanString (encodeBody s @ DQ @ rest) = Some rest"
proof (induction s rule: encodeBody.induct)
  case 1
  show ?case by simp
next
  case (2 c cs)
  show ?case
  proof (cases "(of_char c :: nat) < 0x80")
    case True
    with 2 have IH: "scanString (encodeBody cs @ DQ @ rest) = Some rest" by simp
    show ?thesis
    proof (cases "htmlSafe c")
      case safe: True
      from htmlSafe_plain [OF safe]
      have "scanString (c # encodeBody cs @ DQ @ rest) = scanString (encodeBody cs @ DQ @ rest)"
        by (intro scanString_plain) simp_all
      with True safe IH show ?thesis by simp
    next
      case False
      with True IH scanString_escapeByte [of c "encodeBody cs @ DQ @ rest"]
      show ?thesis by simp
    qed
  next
    case False
    obtain r n where d: "DecodeRune (map of_char (c # cs)) = (r, n)"
      by (cases "DecodeRune (map of_char (c # cs))")
    from 2 False d
    have IH: "scanString (encodeBody (drop n (c # cs)) @ DQ @ rest) = Some rest"
      by (cases "r = RuneError \<and> n = 1"; cases "r = 0x2028 \<or> r = 0x2029") auto
    show ?thesis
    proof (cases "r = RuneError \<and> n = 1")
      case True
      with False d IH show ?thesis
        by (simp add: isHexDigit_literals)
    next
      case notErr: False
      show ?thesis
      proof (cases "r = 0x2028 \<or> r = 0x2029")
        case True
        then have "isHexDigit (hexdigit (r mod 16))"
          by (intro isHexDigit_hexdigit) auto
        moreover from True have "r \<noteq> RuneError" by (auto simp: RuneError_def)
        ultimately show ?thesis
          using False d True IH by (simp add: isHexDigit_literals del: drop_Suc_Cons)
      next
        case other: False
        from d have "DecodeRune (of_char c # map of_char cs) = (r, n)" by simp
        from DecodeRune_multi [OF this False notErr]
        have "list_all (\<lambda>b :: nat. 0x80 \<le> b) (take n (map of_char (c # cs)))" by simp
        then have "list_all (\<lambda>c. 0x80 \<le> (of_char c :: nat)) (take n (c # cs))"
          by (rule take_map_high)
        then have "scanString (take n (c # cs) @ encodeBody (drop n (c # cs)) @ DQ @ rest) =
            scanString (encodeBody (drop n (c # cs)) @ DQ @ rest)"
          by (rule scanString_high)
        moreover from False d notErr other
        have "encodeBody (c # cs) = take n (c # cs) @ encodeBody (drop n (c # cs))"
          by (auto simp del: drop_Suc_Cons take_Suc_Cons)
        ultimately show ?thesis
          using IH by (simp del: drop_Suc_Cons take_Suc_Cons encodeBody.simps)
      qed
    qed
  qed
qed

lemma isJSONString_Marshal: "isJSONString (json_Marshal_string s)"
  using scanString_encodeBody [of s "[]"] by (simp add: isJSONString_def json_Marshal_string_def)

lemma jsonValue_string: "jsonValue (Suc n) (json_Marshal_string x @ rest) = Some rest"
  using scanString_encodeBody [of x rest]
  by (simp add: json_Marshal_string_def isWS_def)

lemma jsonElements_strings:
  "length xs \<le> n \<Longrightarrow>
   jsonElements (Suc (Suc n)) (joinComma (map json_Marshal_string (x # xs)) @ '']'' @ rest) =
     Some rest"
proof (induction xs arbitrary: x n)
  case Nil
  have "jsonValue (Suc n) (json_Marshal_string x @ '']'' @ rest) = Some ('']'' @ rest)"
    by (rule jsonValue_string)
  then show ?case by (simp add: isWS_def)
next
  case (Cons y ys)
  then obtain m where n: "n = Suc m" and m: "length ys \<le> m" by (cases n) auto
  have "jsonValue (Suc n)
      (json_Marshal_string x @ '','' @ joinComma (map json_Marshal_string (y # ys)) @ '']'' @ rest) =
      Some ('','' @ joinComma (map json_Marshal_string (y # ys)) @ '']'' @ rest)"
    by (rule jsonValue_string)
  moreover have "jsonElements (Suc (Suc m))
      (joinComma (map json_Marshal_string (y # ys)) @ '']'' @ rest) = Some rest"
    using m by (rule Cons.IH)
  ultimately show ?case using n by (simp add: isWS_def)
qed

lemma joinComma_length:
  "length xs \<le> length (joinComma (map json_Marshal_string (x # xs)))"
proof (induction xs arbitrary: x)
  case Nil
  show ?case by simp
next
  case (Cons y ys)
  have "length ys \<le> length (joinComma (map json_Marshal_string (y # ys)))"
    by (rule Cons.IH)
  then show ?case by simp
qed

lemma joinComma_head:
  "joinComma (map json_Marshal_string (x # xs)) =
     CHR 0x22 # tl (joinComma (map json_Marshal_string (x # xs)))"
  by (cases xs) (simp_all add: json_Marshal_string_def)

lemma jsonValue_marshal:
  "jsonValue (Suc (length (marshal a) + k)) (marshal a @ rest) = Some rest"
proof (cases a)
  case None
  then show ?thesis by (simp add: marshal_def isWS_def scanLiteral_def)
next
  case (Some xs)
  show ?thesis
  proof (cases xs)
    case Nil
    with Some show ?thesis by (simp add: marshal_def isWS_def)
  next
    case (Cons y ys)
    let ?j = "joinComma (map json_Marshal_string (y # ys))"
    have len: "length (marshal a) + k = Suc (Suc (length ?j + k))"
      using Some Cons by (simp add: marshal_def)
    have "length ys \<le> length ?j + k"
      using joinComma_length [of ys y] by simp
    then have el: "jsonElements (Suc (Suc (length ?j + k))) (?j @ '']'' @ rest) = Some rest"
      by (rule jsonElements_strings)
    have hd: "?j @ '']'' @ rest = CHR 0x22 # tl ?j @ '']'' @ rest"
      using joinComma_head [of y ys] by (metis append_Cons)
    have "jsonValue (Suc (Suc (Suc (length ?j + k)))) (''['' @ ?j @ '']'' @ rest) =
        jsonElements (Suc (Suc (length ?j + k))) (?j @ '']'' @ rest)"
      by (subst (2) hd, subst hd) (simp add: isWS_def del: jsonElements.simps)
    with el len Some Cons show ?thesis
      by (simp add: marshal_def del: jsonValue.simps jsonElements.simps)
  qed
qed

lemma validJSON_marshal: "validJSON (marshal a)"
  using jsonValue_marshal [of a 0 "[]"] by (simp add: validJSON_def)

subsection \<open>The fields of a record\<close>

text \<open>
  C6, as the code has it: every sequence field is written, in its fixed place among the
  fields, as what \<^verbatim>\<open>json.Marshal\<close> gives for the slice. A slice that is not nil is
  written as a JSON array of strings, its elements between brackets with commas between
  them, each a JSON string; the empty slice that is not nil is \<^verbatim>\<open>[]\<close>. The nil
  slice is written as \<^verbatim>\<open>null\<close>. Either way the value is valid JSON.
\<close>

theorem sequences_marshalled:
  "marshal None = ''null'' \<and> marshal (Some []) = ''[]'' \<and>
   marshal (Some xs) = ''['' @ joinComma (map json_Marshal_string xs) @ '']'' \<and>
   list_all isJSONString (map json_Marshal_string xs) \<and>
   validJSON (marshal a) \<and>
   writeFields kep =
     fmtQuoted ''title'' (Title kep) @
     fmtQuoted ''owning-sig'' (OwningSIG kep) @
     fmtPlain ''participating-sigs'' (marshal (ParticipatingSIGs kep)) @
     fmtPlain ''reviewers'' (marshal (Reviewers kep)) @
     fmtPlain ''authors'' (marshal (Authors kep)) @
     fmtQuoted ''editor'' (Editor kep) @
     fmtQuoted ''creation-date'' (CreationDate kep) @
     fmtQuoted ''last-updated'' (LastUpdated kep) @
     fmtQuoted ''status'' (Status kep) @
     fmtPlain ''see-also'' (marshal (SeeAlso kep)) @
     fmtPlain ''replaces'' (marshal (Replaces kep)) @
     fmtPlain ''superseded-by'' (marshal (SupersededBy kep)) @
     fmtLast ''markdown'' (json_Marshal_string (Contents kep))"
proof (intro conjI)
  show "marshal None = ''null''" by (simp add: marshal_def)
  show "marshal (Some []) = ''[]''" by (simp add: marshal_def)
  show "marshal (Some xs) = ''['' @ joinComma (map json_Marshal_string xs) @ '']''"
    by (simp add: marshal_def)
  show "list_all isJSONString (map json_Marshal_string xs)"
    by (simp add: list_all_iff isJSONString_Marshal)
  show "validJSON (marshal a)" by (rule validJSON_marshal)
  show "writeFields kep =
     fmtQuoted ''title'' (Title kep) @
     fmtQuoted ''owning-sig'' (OwningSIG kep) @
     fmtPlain ''participating-sigs'' (marshal (ParticipatingSIGs kep)) @
     fmtPlain ''reviewers'' (marshal (Reviewers kep)) @
     fmtPlain ''authors'' (marshal (Authors kep)) @
     fmtQuoted ''editor'' (Editor kep) @
     fmtQuoted ''creation-date'' (CreationDate kep) @
     fmtQuoted ''last-updated'' (LastUpdated kep) @
     fmtQuoted ''status'' (Status kep) @
     fmtPlain ''see-also'' (marshal (SeeAlso kep)) @
     fmtPlain ''replaces'' (marshal (Replaces kep)) @
     fmtPlain ''superseded-by'' (marshal (SupersededBy kep)) @
     fmtLast ''markdown'' (json_Marshal_string (Contents kep))"
    by (rule writeFields_def)
qed

text \<open>
  The claim as the spec words it fails for a nil slice, which is an empty sequence: the
  example proposal has no participating SIGs, and its member is \<^verbatim>\<open>null\<close>, not \<^verbatim>\<open>[]\<close>.
\<close>

theorem nil_sequence_is_null:
  "len (ParticipatingSIGs exampleKep) = 0 \<and>
   fmtPlain ''participating-sigs'' (marshal (ParticipatingSIGs exampleKep)) =
     TAB @ TAB @ DQ @ ''participating-sigs'' @ DQ @ '': null,'' @ NL \<and>
   marshal (ParticipatingSIGs exampleKep) \<noteq> ''[]''"
  by (simp add: exampleKep_def marshal_def fmtPlain_def)

text \<open>
  C2 at a title that holds two quotes: \<^verbatim>\<open>printJSONOutput\<close> copies the title between two
  quotes as it is, so what stands after \<^verbatim>\<open>"title": \<close> is not a JSON string.
  \<^verbatim>\<open>json.Marshal\<close>, which the same function calls for the body, would have escaped
  the quotes.
\<close>

theorem title_written_unescaped:
  "fmtQuoted ''title'' (Title quotedKep) =
     TAB @ TAB @ DQ @ ''title'' @ DQ @ '': '' @ DQ @ ''Say '' @ DQ @ ''hi'' @ DQ @ DQ @ '','' @ NL \<and>
   take (length (fmtQuoted ''title'' (Title quotedKep))) (writeFields quotedKep) =
     fmtQuoted ''title'' (Title quotedKep) \<and>
   \<not> isJSONString (DQ @ Title quotedKep @ DQ) \<and>
   json_Marshal_string (Title quotedKep) =
     DQ @ ''Say '' @ BSL @ DQ @ ''hi'' @ BSL @ DQ @ DQ \<and>
   isJSONString (json_Marshal_string (Title quotedKep))"
proof (intro conjI)
  show "fmtQuoted ''title'' (Title quotedKep) =
     TAB @ TAB @ DQ @ ''title'' @ DQ @ '': '' @ DQ @ ''Say '' @ DQ @ ''hi'' @ DQ @ DQ @ '','' @ NL"
    by (simp add: quotedKep_def fmtQuoted_def)
  show "take (length (fmtQuoted ''title'' (Title quotedKep))) (writeFields quotedKep) =
     fmtQuoted ''title'' (Title quotedKep)"
    unfolding writeFields_def by (rule append_eq_conv_conj [THEN iffD1, THEN conjunct1, symmetric]) (rule refl)
  show "\<not> isJSONString (DQ @ Title quotedKep @ DQ)"
    by (simp add: quotedKep_def isJSONString_def)
  show "json_Marshal_string (Title quotedKep) =
     DQ @ ''Say '' @ BSL @ DQ @ ''hi'' @ BSL @ DQ @ DQ"
    by (simp add: quotedKep_def json_Marshal_string_def htmlSafe_def escapeByte_def)
  show "isJSONString (json_Marshal_string (Title quotedKep))"
    by (rule isJSONString_Marshal)
qed

subsection \<open>The whole text\<close>

lemma hash_unescaped: "list_all unescaped (hash s)"
proof -
  have "unescaped c" if "c \<in> set (hash s)" for c
  proof -
    from that have "c \<in> set ''0123456789abcdef''"
      unfolding hash_def by (rule hexEncode_member)
    then show ?thesis by (auto simp: unescaped_def)
  qed
  then show ?thesis by (simp add: list_all_iff)
qed

lemma scanString_hash: "scanString (hash s @ rest) = scanString rest"
  using hash_unescaped by (rule scanString_unescaped)

lemma quoted_title_rejected:
  "jsonMembers j (DQ @ ''title'' @ DQ @ '': '' @ DQ @ ''Say '' @ DQ @ ''hi'' @ DQ @ DQ @ rest) = None"
proof (cases j)
  case 0
  then show ?thesis by simp
next
  case (Suc i)
  then show ?thesis by (cases i) (simp_all add: isWS_def)
qed

lemma quoted_object_rejected:
  "jsonValue k ('' {'' @ NL @ writeFields quotedKep @ rest) = None"
proof (cases k)
  case 0
  then show ?thesis by simp
next
  case (Suc j)
  have "jsonMembers j (DQ @ ''title'' @ DQ @ '': '' @ DQ @ ''Say '' @ DQ @ ''hi'' @ DQ @ DQ @ rest') = None"
    for rest' by (rule quoted_title_rejected)
  with Suc show ?thesis
    by (simp add: writeFields_def fmtQuoted_def quotedKep_def isWS_def
        del: jsonMembers.simps)
qed

lemma quoted_file_rejected: "jsonValue n (fileText [quotedKep]) = None"
proof (cases n)
  case 0
  then show ?thesis by simp
next
  case (Suc m)
  have inner: "jsonValue k ('' {'' @ NL @ writeFields quotedKep @ rest) = None" for k rest
    by (rule quoted_object_rejected)
  have "jsonMembers m (DQ @ hash s @ DQ @ '': {'' @ NL @ writeFields quotedKep @ rest) = None"
    for s rest
  proof (cases m)
    case 0
    then show ?thesis by simp
  next
    case (Suc k)
    with inner [of k rest] scanString_hash [of s "DQ @ '': {'' @ NL @ writeFields quotedKep @ rest"]
    show ?thesis
      by (simp add: isWS_def del: jsonValue.simps)
  qed
  with Suc show ?thesis
    by (simp add: fileText_def writeKep_def fmtKey_def identifierOf_def isWS_def
        del: jsonMembers.simps)
qed

text \<open>
  C3 at the same proposal: a run over one document whose title holds two quotes exits with
  status 0 and writes a file that is not valid JSON, whatever bound the recogniser is given.
\<close>

theorem quoted_title_breaks_json:
  "exit_status (main (exampleWorld [dirAt ''keps'' ''keps'', fileAt ''keps/q.md'' ''q.md''])) = 0 \<and>
   created (main (exampleWorld [dirAt ''keps'' ''keps'', fileAt ''keps/q.md'' ''q.md''])) =
     Some (''keps.json'', fileText [quotedKep]) \<and>
   \<not> validJSON (fileText [quotedKep]) \<and>
   (\<forall>n. jsonValue n (fileText [quotedKep]) = None)"
proof -
  let ?w = "exampleWorld [dirAt ''keps'' ''keps'', fileAt ''keps/q.md'' ''q.md'']"
  have found: "findMarkdownFiles ?w (flag_dir ?w) = ([''keps/q.md''], None)"
    by (simp add: findMarkdownFiles_eq exampleWorld_def discovered_def firstError_def
        eligible_def noError_def dirAt_def fileAt_def ignoreList_def HasSuffix_def)
  have pf: "parseFiles ?w [''keps/q.md''] = (progress [''keps/q.md''], Inr [quotedKep])"
    by (simp add: parseFiles_def exampleWorld_def exampleOpen_def exampleParse_def
        quotedKep_def exampleKep_def AddProposal_def progress_def)
  have flags: "flag_dir ?w \<noteq> []" "\<not> stat_IsNotExist ?w (flag_dir ?w)" "flag_output ?w \<noteq> []"
    "os_Create ?w (flag_output ?w) = None" "flag_output ?w = ''keps.json''"
    by (simp_all add: exampleWorld_def)
  have "main ?w =
     \<lparr>exit_status = 0,
      stdout = progress [''keps/q.md''] @ ''Output file: '' @ flag_output ?w @ NL @
               ''Total KEPs: '' @ decimal (length [quotedKep]) @ NL,
      stderr = [], created = Some (flag_output ?w, fileText [quotedKep])\<rparr>"
    using flags(1-3) found _ pf flags(4) by (rule main_success) simp
  then have "exit_status (main ?w) = 0"
    and "created (main ?w) = Some (''keps.json'', fileText [quotedKep])"
    using flags(5) by simp_all
  moreover have "\<not> validJSON (fileText [quotedKep])"
    by (simp add: validJSON_def quoted_file_rejected del: jsonValue.simps)
  moreover have "\<forall>n. jsonValue n (fileText [quotedKep]) = None"
    by (simp add: quoted_file_rejected del: jsonValue.simps)
  ultimately show ?thesis by simp
qed

subsection \<open>When the text is valid JSON\<close>

text \<open>A larger bound never makes the recogniser reject what it accepted.\<close>

lemma fuel_step:
  "(\<forall>s r. jsonValue n s = Some r \<longrightarrow> jsonValue (Suc n) s = Some r) \<and>
   (\<forall>s r. jsonMembers n s = Some r \<longrightarrow> jsonMembers (Suc n) s = Some r) \<and>
   (\<forall>s r. jsonElements n s = Some r \<longrightarrow> jsonElements (Suc n) s = Some r)"
proof (induction n)
  case 0
  show ?case by simp
next
  case (Suc n)
  then have v: "jsonValue n s = Some r \<Longrightarrow> jsonValue (Suc n) s = Some r"
    and m: "jsonMembers n s = Some r \<Longrightarrow> jsonMembers (Suc n) s = Some r"
    and e: "jsonElements n s = Some r \<Longrightarrow> jsonElements (Suc n) s = Some r" for s r
    by blast+
  have "jsonValue (Suc (Suc n)) s = Some r" if "jsonValue (Suc n) s = Some r" for s r
    using that m e
    by (subst jsonValue.simps, subst (asm) jsonValue.simps)
      (auto split: list.splits if_splits simp del: jsonMembers.simps jsonElements.simps)
  moreover have "jsonMembers (Suc (Suc n)) s = Some r" if "jsonMembers (Suc n) s = Some r" for s r
    using that v m
    by (subst jsonMembers.simps, subst (asm) jsonMembers.simps)
      (auto split: list.splits option.splits if_splits
        simp del: jsonValue.simps jsonMembers.simps)
  moreover have "jsonElements (Suc (Suc n)) s = Some r" if "jsonElements (Suc n) s = Some r" for s r
    using that v e
    by (subst jsonElements.simps, subst (asm) jsonElements.simps)
      (auto split: list.splits option.splits if_splits
        simp del: jsonValue.simps jsonElements.simps)
  ultimately show ?case by blast
qed

lemma jsonValue_mono: "jsonValue n s = Some r \<Longrightarrow> n \<le> m \<Longrightarrow> jsonValue m s = Some r"
  by (induction m) (use fuel_step in \<open>auto simp: le_Suc_eq\<close>)

lemma jsonMembers_mono: "jsonMembers n s = Some r \<Longrightarrow> n \<le> m \<Longrightarrow> jsonMembers m s = Some r"
  by (induction m) (use fuel_step in \<open>auto simp: le_Suc_eq\<close>)

lemma skipWS_idem: "skipWS (skipWS s) = skipWS s"
  by (induction s) simp_all

lemma jsonMembers_ws: "isWS c \<Longrightarrow> jsonMembers n (c # s) = jsonMembers n s"
  by (cases n) simp_all

lemma jsonValue_ws: "isWS c \<Longrightarrow> jsonValue n (c # s) = jsonValue n s"
  by (cases n) simp_all

lemma isWS_literals: "isWS CHR 0x09" "isWS CHR 0x0A" "isWS CHR 0x20" "\<not> isWS CHR 0x22"
  "\<not> isWS CHR '':''" "\<not> isWS CHR '',''" "\<not> isWS CHR ''}''" "\<not> isWS CHR ''{''"
  by (simp_all add: isWS_def)

text \<open>One member and a comma: the rest is read with one call less.\<close>

lemma member_line:
  assumes "list_all unescaped k"
    and "jsonValue n (v @ '','' @ NL @ rest) = Some ('','' @ NL @ rest)"
  shows "jsonMembers (Suc n) (fmtPlain k v @ rest) = jsonMembers n rest"
proof -
  have key: "scanString (k @ DQ @ '': '' @ v @ '','' @ NL @ rest) = Some ('': '' @ v @ '','' @ NL @ rest)"
    using scanString_unescaped [OF assms(1), of "DQ @ '': '' @ v @ '','' @ NL @ rest"] by simp
  have val: "jsonValue n (CHR 0x20 # v @ '','' @ NL @ rest) = Some ('','' @ NL @ rest)"
    using assms(2) by (simp add: jsonValue_ws isWS_literals)
  have "jsonMembers n (CHR 0x0A # rest) = jsonMembers n rest"
    by (simp add: jsonMembers_ws isWS_literals)
  with key val show ?thesis
    by (simp add: fmtPlain_def isWS_literals del: jsonValue.simps)
qed

text \<open>The last member and the closing brace.\<close>

lemma member_last:
  assumes "list_all unescaped k"
    and "jsonValue n (v @ NL @ TAB @ ''}'' @ rest) = Some (NL @ TAB @ ''}'' @ rest)"
  shows "jsonMembers (Suc n) (fmtLast k v @ TAB @ ''}'' @ rest) = Some rest"
proof -
  have key: "scanString (k @ DQ @ '': '' @ v @ NL @ TAB @ ''}'' @ rest) =
      Some ('': '' @ v @ NL @ TAB @ ''}'' @ rest)"
    using scanString_unescaped [OF assms(1), of "DQ @ '': '' @ v @ NL @ TAB @ ''}'' @ rest"] by simp
  have val: "jsonValue n (CHR 0x20 # v @ NL @ TAB @ ''}'' @ rest) = Some (NL @ TAB @ ''}'' @ rest)"
    using assms(2) by (simp add: jsonValue_ws isWS_literals)
  with key show ?thesis
    by (simp add: fmtLast_def isWS_literals del: jsonValue.simps)
qed

lemma jsonValue_quoted:
  "list_all unescaped x \<Longrightarrow> jsonValue (Suc n) (DQ @ x @ DQ @ rest) = Some rest"
  using scanString_unescaped [of x "DQ @ rest"] by (simp add: isWS_literals)

lemma fmtQuoted_fmtPlain: "fmtQuoted k v = fmtPlain k (DQ @ v @ DQ)"
  by (simp add: fmtQuoted_def fmtPlain_def)

lemma quoted_line:
  assumes "list_all unescaped k" and "list_all unescaped x"
  shows "jsonMembers (Suc (Suc n)) (fmtQuoted k x @ rest) = jsonMembers (Suc n) rest"
proof -
  have "jsonValue (Suc n) ((DQ @ x @ DQ) @ '','' @ NL @ rest) = Some ('','' @ NL @ rest)"
    using jsonValue_quoted [OF assms(2), of n "'','' @ NL @ rest"] by simp
  with assms(1) show ?thesis
    unfolding fmtQuoted_fmtPlain by (rule member_line)
qed

lemma array_line:
  assumes "list_all unescaped k" and "length (marshal a) \<le> n"
  shows "jsonMembers (Suc (Suc n)) (fmtPlain k (marshal a) @ rest) = jsonMembers (Suc n) rest"
proof -
  have "jsonValue (Suc (length (marshal a) + 0)) (marshal a @ '','' @ NL @ rest) =
      Some ('','' @ NL @ rest)"
    by (rule jsonValue_marshal)
  then have "jsonValue (Suc n) (marshal a @ '','' @ NL @ rest) = Some ('','' @ NL @ rest)"
    by (rule jsonValue_mono) (use assms(2) in simp)
  with assms(1) show ?thesis by (rule member_line)
qed

lemma key_literals:
  "list_all unescaped ''title''" "list_all unescaped ''owning-sig''"
  "list_all unescaped ''participating-sigs''" "list_all unescaped ''reviewers''"
  "list_all unescaped ''authors''" "list_all unescaped ''editor''"
  "list_all unescaped ''creation-date''" "list_all unescaped ''last-updated''"
  "list_all unescaped ''status''" "list_all unescaped ''see-also''"
  "list_all unescaped ''replaces''" "list_all unescaped ''superseded-by''"
  "list_all unescaped ''markdown''"
  by (simp_all add: unescaped_def)

lemma marshal_le_fields:
  "length (marshal (ParticipatingSIGs kep)) \<le> length (writeFields kep)"
  "length (marshal (Reviewers kep)) \<le> length (writeFields kep)"
  "length (marshal (Authors kep)) \<le> length (writeFields kep)"
  "length (marshal (SeeAlso kep)) \<le> length (writeFields kep)"
  "length (marshal (Replaces kep)) \<le> length (writeFields kep)"
  "length (marshal (SupersededBy kep)) \<le> length (writeFields kep)"
  by (simp_all add: writeFields_def fmtPlain_def)

lemma fields_parse:
  assumes "scalarsUnescaped kep" and "length (writeFields kep) \<le> n"
  shows "jsonMembers (14 + n) (writeFields kep @ TAB @ ''}'' @ rest) = Some rest"
proof -
  note m = marshal_le_fields [of kep, THEN le_trans, OF assms(2)]
  have "jsonValue (Suc n) (json_Marshal_string (Contents kep) @ NL @ TAB @ ''}'' @ rest) =
      Some (NL @ TAB @ ''}'' @ rest)"
    by (rule jsonValue_string)
  with key_literals(13)
  have "jsonMembers (Suc (Suc n))
      (fmtLast ''markdown'' (json_Marshal_string (Contents kep)) @ TAB @ ''}'' @ rest) = Some rest"
    by (rule member_last)
  with assms(1) m
  have "jsonMembers (Suc (Suc (Suc (Suc (Suc (Suc (Suc (Suc (Suc (Suc (Suc (Suc (Suc (Suc n))))))))))))))
      (writeFields kep @ TAB @ ''}'' @ rest) = Some rest"
    by (simp add: writeFields_def scalarsUnescaped_def quoted_line array_line unescaped_def
        del: jsonMembers.simps)
  then show ?thesis by (simp only: numeral_eq_Suc pred_numeral_simps Num.BitM.simps add_Suc add_0 One_nat_def)
qed

lemma jsonMembers_skipWS: "jsonMembers n (skipWS s) = jsonMembers n s"
  by (cases n) (simp_all add: skipWS_idem)

lemma object_open:
  assumes "skipWS s = c # cs" and "c \<noteq> CHR ''}''"
  shows "jsonValue (Suc n) (CHR ''{'' # s) = jsonMembers n s"
proof -
  have "jsonValue (Suc n) (CHR ''{'' # s) = jsonMembers n (skipWS s)"
    using assms by (simp add: isWS_literals del: jsonMembers.simps)
  then show ?thesis by (simp only: jsonMembers_skipWS)
qed

lemma writeFields_skipWS:
  "\<exists>cs. skipWS (NL @ writeFields kep @ rest) = CHR 0x22 # cs"
  by (simp add: writeFields_def fmtQuoted_def isWS_literals)

lemma object_parse:
  assumes "scalarsUnescaped kep" and "15 + length (writeFields kep) \<le> n"
  shows "jsonValue n ('' {'' @ NL @ writeFields kep @ TAB @ ''}'' @ rest) = Some rest"
proof -
  let ?f = "14 + length (writeFields kep)"
  obtain cs where "skipWS (NL @ writeFields kep @ TAB @ ''}'' @ rest) = CHR 0x22 # cs"
    using writeFields_skipWS by blast
  then have "jsonValue (Suc ?f) (CHR ''{'' # NL @ writeFields kep @ TAB @ ''}'' @ rest) =
      jsonMembers ?f (NL @ writeFields kep @ TAB @ ''}'' @ rest)"
    by (rule object_open) simp
  also have "\<dots> = jsonMembers ?f (writeFields kep @ TAB @ ''}'' @ rest)"
    by (simp add: jsonMembers_ws isWS_literals del: jsonMembers.simps)
  also have "\<dots> = Some rest"
    using assms(1) by (rule fields_parse) simp
  finally have "jsonValue (Suc ?f) ('' {'' @ NL @ writeFields kep @ TAB @ ''}'' @ rest) = Some rest"
    by (simp add: jsonValue_ws isWS_literals del: jsonValue.simps)
  then show ?thesis
    by (rule jsonValue_mono) (use assms(2) in simp)
qed

lemma fmtKey_length: "length (fmtKey (hash s)) = 39"
  by (simp add: fmtKey_def hash_length)

lemma member_key:
  assumes "jsonValue n ('' {'' @ NL @ body @ TAB @ ''}'' @ rest) = Some rest"
  shows "jsonMembers (Suc n) (fmtKey (hash s) @ body @ TAB @ ''}'' @ rest) =
           (case skipWS rest of
              [] \<Rightarrow> None
            | e # es \<Rightarrow>
                if e = CHR '','' then jsonMembers n es
                else if e = CHR ''}'' then Some es
                else None)"
proof -
  have "scanString (hash s @ DQ @ '': {'' @ NL @ body @ TAB @ ''}'' @ rest) =
      Some ('': {'' @ NL @ body @ TAB @ ''}'' @ rest)"
    by (simp add: scanString_hash)
  with assms show ?thesis
    by (simp add: fmtKey_def isWS_literals del: jsonValue.simps)
qed

lemma writeKep_length: "length (writeKep kep) = 39 + length (writeFields kep)"
proof -
  have "length (fmtKey (hash (OwningSIG kep @ '':'' @ Title kep))) = 39"
    by (rule fmtKey_length)
  then show ?thesis
    by (simp add: writeKep_def identifierOf_def)
qed

lemma keps_parse:
  assumes "ps \<noteq> []" and "i + int (length ps) = tot" and "list_all scalarsUnescaped ps"
  shows "jsonMembers (length (rangeKeps tot i ps) + k) (rangeKeps tot i ps @ ''}'' @ rest) = Some rest"
  using assms
proof (induction ps arbitrary: i k)
  case Nil
  then show ?case by simp
next
  case (Cons kep more)
  let ?wf = "writeFields kep"
  let ?tail = "rangeKeps tot (i + 1) more"
  from Cons.prems have plain: "scalarsUnescaped kep" by simp
  have len: "length (rangeKeps tot i (kep # more)) =
      39 + length ?wf + length (closeKep i tot) + length ?tail"
    by (simp add: writeKep_length)
  have close3: "3 \<le> length (closeKep i tot)" by (simp add: closeKep_def)
  define n where "n = 38 + length ?wf + length (closeKep i tot) + length ?tail + k"
  have fuel: "length (rangeKeps tot i (kep # more)) + k = Suc n"
    unfolding len n_def by simp
  have obj: "jsonValue n ('' {'' @ NL @ ?wf @ TAB @ ''}'' @ r) = Some r" for r
    using plain by (rule object_parse) (use close3 in \<open>simp add: n_def\<close>)
  show ?case
  proof (cases more)
    case Nil
    with Cons.prems have "closeKep i tot = TAB @ ''}'' @ NL" by (simp add: closeKep_def)
    with Nil have shape: "rangeKeps tot i (kep # more) @ ''}'' @ rest =
        fmtKey (hash (OwningSIG kep @ '':'' @ Title kep)) @ ?wf @ TAB @ ''}'' @ (NL @ ''}'' @ rest)"
      by (simp add: writeKep_def identifierOf_def)
    show ?thesis
      unfolding fuel shape
      by (subst member_key [OF obj]) (simp add: isWS_literals)
  next
    case (Cons kep' more')
    with Cons.prems have "closeKep i tot = TAB @ ''},'' @ NL" by (simp add: closeKep_def)
    then have shape: "rangeKeps tot i (kep # more) @ ''}'' @ rest =
        fmtKey (hash (OwningSIG kep @ '':'' @ Title kep)) @ ?wf @ TAB @ ''}'' @
        ('','' @ NL @ ?tail @ ''}'' @ rest)"
      by (simp add: writeKep_def identifierOf_def)
    have "jsonMembers (length ?tail + (38 + length ?wf + length (closeKep i tot) + k))
        (?tail @ ''}'' @ rest) = Some rest"
      using Cons Cons.prems by (intro Cons.IH) simp_all
    then have "jsonMembers n (?tail @ ''}'' @ rest) = Some rest"
      by (simp add: n_def add.commute add.left_commute)
    then have "jsonMembers n (NL @ ?tail @ ''}'' @ rest) = Some rest"
      by (simp add: jsonMembers_ws isWS_literals)
    then show ?thesis
      unfolding fuel shape
      by (subst member_key [OF obj]) (simp add: isWS_literals)
  qed
qed

text \<open>
  When no scalar field of any proposal (title, owning SIG, editor, the two dates,
  status) holds a quote, a backslash or a control character, the text written by
  \<^verbatim>\<open>printJSONOutput\<close> is valid JSON, for the empty collection as well: the commas are
  where they must be, and the body and the sequences are escaped by \<^verbatim>\<open>json.Marshal\<close>.
\<close>

theorem valid_when_unescaped:
  assumes "list_all scalarsUnescaped ps"
  shows "validJSON (fileText ps)"
proof (cases ps)
  case Nil
  then show ?thesis
    by (simp add: validJSON_def fileText_def isWS_literals)
next
  case (Cons kep more)
  let ?r = "rangeKeps (int (length ps)) 0 ps"
  have mem: "jsonMembers (length ?r + 4) (?r @ ''}'' @ NL) = Some NL"
    using Cons assms by (intro keps_parse) simp_all
  have "\<exists>cs. skipWS (NL @ ?r @ ''}'' @ NL) = CHR 0x22 # cs"
    using Cons by (simp add: writeKep_def fmtKey_def isWS_literals)
  then obtain cs where "skipWS (NL @ ?r @ ''}'' @ NL) = CHR 0x22 # cs" ..
  then have "jsonValue (Suc (length ?r + 4)) (CHR ''{'' # NL @ ?r @ ''}'' @ NL) =
      jsonMembers (length ?r + 4) (NL @ ?r @ ''}'' @ NL)"
    by (rule object_open) simp
  also have "\<dots> = jsonMembers (length ?r + 4) (?r @ ''}'' @ NL)"
    by (simp add: jsonMembers_ws isWS_literals)
  also note mem
  finally have "jsonValue (Suc (length ?r + 4)) (CHR ''{'' # NL @ ?r @ ''}'' @ NL) = Some NL" .
  moreover have "Suc (length (fileText ps)) = Suc (length ?r + 4)"
    by (simp add: fileText_def)
  moreover have "fileText ps = CHR ''{'' # NL @ ?r @ ''}'' @ NL"
    by (simp add: fileText_def)
  ultimately have "jsonValue (Suc (length (fileText ps))) (fileText ps) = Some NL"
    by (simp only:)
  then show ?thesis
    by (simp add: validJSON_def isWS_literals del: jsonValue.simps)
qed

theorem valid_when_unescaped_witness:
  "validJSON (fileText [exampleKep, exampleKep\<lparr>Contents := ''Other''\<rparr>])"
  using valid_when_unescaped [of "[exampleKep, exampleKep\<lparr>Contents := ''Other''\<rparr>]"]
  by (simp add: scalarsUnescaped_def exampleKep_def unescaped_def)

subsection \<open>The keys of the emitted object\<close>

text \<open>
  What \<open>topMembers\<close> accepts \<open>jsonMembers\<close> accepts, with the same rest: a text whose keys
  can be read is valid JSON.
\<close>

lemma topMembers_ws: "isWS c \<Longrightarrow> topMembers n (c # s) = topMembers n s"
  by (cases n) simp_all

lemma keyText_key: "keyText (k @ CHR 0x22 # r) r = k"
  by (simp add: keyText_def)

lemma top_member:
  assumes "list_all unescaped k" and "jsonValue n (v @ rest) = Some rest"
  shows "topMembers (Suc n) (DQ @ k @ DQ @ '':'' @ v @ rest) =
           (case skipWS rest of
              [] \<Rightarrow> None
            | e # es \<Rightarrow>
                if e = CHR '','' then
                  (case topMembers n es of
                     None \<Rightarrow> None
                   | Some (ks, r) \<Rightarrow> Some (k # ks, r))
                else if e = CHR ''}'' then Some ([k], es)
                else None)"
proof -
  have key: "scanString (k @ DQ @ '':'' @ v @ rest) = Some ('':'' @ v @ rest)"
    using scanString_unescaped [OF assms(1), of "DQ @ '':'' @ v @ rest"] by simp
  have kt: "keyText (k @ CHR 0x22 # CHR '':'' # v @ rest) (CHR '':'' # v @ rest) = k"
    by (rule keyText_key)
  from key kt assms(2) show ?thesis
    by (subst topMembers.simps)
      (simp add: isWS_literals split: list.split option.split
        del: jsonValue.simps topMembers.simps)
qed

lemma topMembers_jsonMembers:
  "topMembers n s = Some (ks, r) \<Longrightarrow> jsonMembers n s = Some r"
proof (induction n arbitrary: s ks r)
  case 0
  then show ?case by simp
next
  case (Suc n)
  from Suc.prems show ?case
    by (subst jsonMembers.simps, subst (asm) topMembers.simps)
      (auto split: list.splits option.splits if_splits prod.splits dest: Suc.IH
        simp del: jsonValue.simps jsonMembers.simps topMembers.simps)
qed


lemma topKeys_valid:
  assumes "topKeys s = Some ks"
  shows "validJSON s"
proof -
  from assms obtain cs where s: "skipWS s = CHR ''{'' # cs"
    by (auto simp: topKeys_def split: list.splits if_splits simp del: topMembers.simps)
  from assms s obtain d ds where c: "skipWS cs = d # ds"
    by (auto simp: topKeys_def split: list.splits simp del: topMembers.simps)
  show ?thesis
  proof (cases "d = CHR ''}''")
    case True
    with assms s c have "skipWS ds = []"
      by (simp add: topKeys_def split: if_splits del: topMembers.simps)
    with s c True show ?thesis
      by (simp add: validJSON_def del: jsonMembers.simps)
  next
    case False
    with assms s c obtain rest where t: "topMembers (length s) (d # ds) = Some (ks, rest)"
      and r: "skipWS rest = []"
      by (auto simp: topKeys_def split: option.splits if_splits simp del: topMembers.simps)
    from t have "jsonMembers (length s) (d # ds) = Some rest"
      by (rule topMembers_jsonMembers)
    with s c False r show ?thesis
      by (simp add: validJSON_def del: jsonMembers.simps)
  qed
qed

lemma topMembers_skipWS: "topMembers n (skipWS s) = topMembers n s"
  by (cases n) (simp_all add: skipWS_idem)

lemma topKeys_open:
  assumes "skipWS s = c # cs" and "c \<noteq> CHR ''}''"
  shows "topKeys (CHR ''{'' # s) =
           (case topMembers (Suc (length s)) s of
              None \<Rightarrow> None
            | Some (ks, rest) \<Rightarrow> if skipWS rest = [] then Some ks else None)"
proof -
  have "topMembers (Suc (length s)) (c # cs) = topMembers (Suc (length s)) s"
    using topMembers_skipWS [of "Suc (length s)" s] assms(1) by simp
  with assms show ?thesis
    by (simp add: topKeys_def isWS_literals del: topMembers.simps)
qed

lemma top_key:
  assumes "jsonValue n ('' {'' @ NL @ body @ TAB @ ''}'' @ rest) = Some rest"
  shows "topMembers (Suc n) (fmtKey (hash s) @ body @ TAB @ ''}'' @ rest) =
           (case skipWS rest of
              [] \<Rightarrow> None
            | e # es \<Rightarrow>
                if e = CHR '','' then
                  (case topMembers n es of
                     None \<Rightarrow> None
                   | Some (ks, r) \<Rightarrow> Some (hash s # ks, r))
                else if e = CHR ''}'' then Some ([hash s], es)
                else None)"
proof -
  have "topMembers (Suc n) (DQ @ hash s @ DQ @ '':'' @ ('' {'' @ NL @ body @ TAB @ ''}'') @ rest) =
           (case skipWS rest of
              [] \<Rightarrow> None
            | e # es \<Rightarrow>
                if e = CHR '','' then
                  (case topMembers n es of
                     None \<Rightarrow> None
                   | Some (ks, r) \<Rightarrow> Some (hash s # ks, r))
                else if e = CHR ''}'' then Some ([hash s], es)
                else None)"
    using hash_unescaped by (rule top_member) (use assms in simp)
  then show ?thesis
    by (simp add: fmtKey_def topMembers_ws isWS_literals del: topMembers.simps)
qed

lemma top_keps:
  assumes "ps \<noteq> []" and "i + int (length ps) = tot" and "list_all scalarsUnescaped ps"
  shows "topMembers (length (rangeKeps tot i ps) + k) (rangeKeps tot i ps @ ''}'' @ rest) =
           Some (map identifierOf ps, rest)"
  using assms
proof (induction ps arbitrary: i k)
  case Nil
  then show ?case by simp
next
  case (Cons kep more)
  let ?wf = "writeFields kep"
  let ?tail = "rangeKeps tot (i + 1) more"
  from Cons.prems have plain: "scalarsUnescaped kep" by simp
  have len: "length (rangeKeps tot i (kep # more)) =
      39 + length ?wf + length (closeKep i tot) + length ?tail"
    by (simp add: writeKep_length)
  have close3: "3 \<le> length (closeKep i tot)" by (simp add: closeKep_def)
  define n where "n = 38 + length ?wf + length (closeKep i tot) + length ?tail + k"
  have fuel: "length (rangeKeps tot i (kep # more)) + k = Suc n"
    unfolding len n_def by simp
  have obj: "jsonValue n ('' {'' @ NL @ ?wf @ TAB @ ''}'' @ r) = Some r" for r
    using plain by (rule object_parse) (use close3 in \<open>simp add: n_def\<close>)
  show ?case
  proof (cases more)
    case Nil
    with Cons.prems have "closeKep i tot = TAB @ ''}'' @ NL" by (simp add: closeKep_def)
    with Nil have shape: "rangeKeps tot i (kep # more) @ ''}'' @ rest =
        fmtKey (hash (OwningSIG kep @ '':'' @ Title kep)) @ ?wf @ TAB @ ''}'' @ (NL @ ''}'' @ rest)"
      by (simp add: writeKep_def identifierOf_def)
    from Nil show ?thesis
      unfolding fuel shape
      by (subst top_key [OF obj]) (simp add: isWS_literals identifierOf_def)
  next
    case (Cons kep' more')
    with Cons.prems have "closeKep i tot = TAB @ ''},'' @ NL" by (simp add: closeKep_def)
    then have shape: "rangeKeps tot i (kep # more) @ ''}'' @ rest =
        fmtKey (hash (OwningSIG kep @ '':'' @ Title kep)) @ ?wf @ TAB @ ''}'' @
        ('','' @ NL @ ?tail @ ''}'' @ rest)"
      by (simp add: writeKep_def identifierOf_def)
    have "topMembers (length ?tail + (38 + length ?wf + length (closeKep i tot) + k))
        (?tail @ ''}'' @ rest) = Some (map identifierOf more, rest)"
      using Cons Cons.prems by (intro Cons.IH) simp_all
    then have "topMembers n (?tail @ ''}'' @ rest) = Some (map identifierOf more, rest)"
      by (simp add: n_def add.commute add.left_commute)
    then have "topMembers n (NL @ ?tail @ ''}'' @ rest) = Some (map identifierOf more, rest)"
      by (simp add: topMembers_ws isWS_literals del: topMembers.simps)
    then show ?thesis
      unfolding fuel shape
      by (subst top_key [OF obj]) (simp add: isWS_literals identifierOf_def del: topMembers.simps)
  qed
qed

text \<open>
  When no scalar field of any proposal holds a quote, a backslash or a control character,
  the emitted object has one top-level member for each proposal, and the key of the member
  at position \<open>n\<close> is the identifier of the proposal at position \<open>n\<close>, whatever the
  identifiers are: the keys are not sorted.
\<close>

theorem keys_follow_discovery:
  assumes "list_all scalarsUnescaped ps"
  shows "topKeys (fileText ps) = Some (map identifierOf ps)"
proof (cases ps)
  case Nil
  then show ?thesis
    by (simp add: topKeys_def fileText_def isWS_literals)
next
  case (Cons kep more)
  let ?r = "rangeKeps (int (length ps)) 0 ps"
  have mem: "topMembers (length ?r + 4) (?r @ ''}'' @ NL) = Some (map identifierOf ps, NL)"
    using Cons assms by (intro top_keps) simp_all
  have "\<exists>cs. skipWS (NL @ ?r @ ''}'' @ NL) = CHR 0x22 # cs"
    using Cons by (simp add: writeKep_def fmtKey_def isWS_literals)
  then obtain cs where "skipWS (NL @ ?r @ ''}'' @ NL) = CHR 0x22 # cs" ..
  then have "topKeys (CHR ''{'' # NL @ ?r @ ''}'' @ NL) =
      (case topMembers (Suc (length (NL @ ?r @ ''}'' @ NL))) (NL @ ?r @ ''}'' @ NL) of
         None \<Rightarrow> None
       | Some (ks, rest) \<Rightarrow> if skipWS rest = [] then Some ks else None)"
    by (rule topKeys_open) simp
  moreover have "Suc (length (NL @ ?r @ ''}'' @ NL)) = length ?r + 4"
    by simp
  moreover have "topMembers (length ?r + 4) (NL @ ?r @ ''}'' @ NL) =
      topMembers (length ?r + 4) (?r @ ''}'' @ NL)"
    by (simp add: topMembers_ws isWS_literals del: topMembers.simps)
  moreover have "fileText ps = CHR ''{'' # NL @ ?r @ ''}'' @ NL"
    by (simp add: fileText_def)
  ultimately have "topKeys (fileText ps) =
      (case Some (map identifierOf ps, NL) of
         None \<Rightarrow> None
       | Some (ks, rest) \<Rightarrow> if skipWS rest = [] then Some ks else None)"
    using mem by (simp only:)
  then show ?thesis
    by (simp add: isWS_literals)
qed

theorem keys_follow_discovery_witness:
  "topKeys (fileText [exampleKep, exampleKep\<lparr>Title := ''Bar''\<rparr>]) =
     Some [identifierOf exampleKep, identifierOf (exampleKep\<lparr>Title := ''Bar''\<rparr>)]"
  using keys_follow_discovery [of "[exampleKep, exampleKep\<lparr>Title := ''Bar''\<rparr>]"]
  by (simp add: scalarsUnescaped_def exampleKep_def unescaped_def)

text \<open>
  A title that holds a quote can close the string and the member it is written in. The
  fields of the proposal of \<^verbatim>\<open>0.md\<close> are written with the title line
  \<^verbatim>\<open>"title": "A"}, "injected": {"title": "B",\<close> and the other twelve lines after it.
\<close>

lemma object_ws: "isWS c \<Longrightarrow> jsonValue n (CHR ''{'' # c # s) = jsonValue n (CHR ''{'' # s)"
  by (cases n) (simp_all add: isWS_literals del: jsonMembers.simps)

lemma title_object:
  "jsonValue (Suc (Suc (Suc m)))
     ('' {'' @ NL @ TAB @ TAB @ DQ @ ''title'' @ DQ @ '': '' @ DQ @ ''A'' @ DQ @ ''}'' @ rest) =
   Some rest"
  by (simp add: isWS_def)

lemma injected_fields:
  "writeFields injectedKep =
     TAB @ TAB @ DQ @ ''title'' @ DQ @ '': '' @ DQ @ ''A'' @ DQ @ ''}, '' @
     DQ @ ''injected'' @ DQ @ '': {'' @ drop 2 (writeFields (exampleKep\<lparr>Title := ''B''\<rparr>))"
  by (simp add: writeFields_def fmtQuoted_def injectedKep_def)

lemma injected_object:
  assumes "15 + length (writeFields (exampleKep\<lparr>Title := ''B''\<rparr>)) \<le> n"
  shows "jsonValue n ('' {'' @ drop 2 (writeFields (exampleKep\<lparr>Title := ''B''\<rparr>)) @
                      TAB @ ''}'' @ rest) = Some rest"
proof -
  let ?B = "exampleKep\<lparr>Title := ''B''\<rparr>"
  have tabs: "writeFields ?B = TAB @ TAB @ drop 2 (writeFields ?B)"
    by (simp add: writeFields_def fmtQuoted_def)
  have "scalarsUnescaped ?B"
    by (simp add: scalarsUnescaped_def exampleKep_def unescaped_def)
  then have "jsonValue n ('' {'' @ NL @ writeFields ?B @ TAB @ ''}'' @ rest) = Some rest"
    using assms by (rule object_parse)
  then have "jsonValue n ('' {'' @ NL @ (TAB @ TAB @ drop 2 (writeFields ?B)) @ TAB @ ''}'' @ rest) =
      Some rest"
    by (simp only: tabs [symmetric])
  then show ?thesis
    by (simp add: jsonValue_ws object_ws isWS_literals del: jsonValue.simps)
qed


lemma injected_keys:
  "topKeys (fileText [injectedKep, exampleKep]) =
     Some [identifierOf injectedKep, ''injected'', identifierOf exampleKep]"
proof -
  define B where "B = exampleKep\<lparr>Title := ''B''\<rparr>"
  define Y where "Y = drop 2 (writeFields B)"
  define K1 where "K1 = hash (OwningSIG injectedKep @ '':'' @ Title injectedKep)"
  define tail where "tail = rangeKeps 2 1 [exampleKep]"
  define v1 where
    "v1 = '' {'' @ NL @ TAB @ TAB @ DQ @ ''title'' @ DQ @ '': '' @ DQ @ ''A'' @ DQ @ ''}''"
  define v2 where "v2 = '' {'' @ Y @ TAB @ ''}''"
  define rest2 where "rest2 = '','' @ NL @ tail @ ''}'' @ NL"
  define m2 where "m2 = DQ @ ''injected'' @ DQ @ '':'' @ v2 @ rest2"
  define rest1 where "rest1 = '', '' @ m2"
  define m1 where "m1 = DQ @ K1 @ DQ @ '':'' @ v1 @ rest1"
  define M where "M = NL @ TAB @ m1"
  have shape: "fileText [injectedKep, exampleKep] = CHR ''{'' # M"
    by (simp add: M_def m1_def rest1_def m2_def rest2_def v2_def v1_def tail_def K1_def Y_def
        B_def fileText_def writeKep_def fmtKey_def identifierOf_def injected_fields closeKep_def)
  have lenY: "length (writeFields B) = length Y + 2"
    unfolding Y_def B_def by (simp add: writeFields_def fmtQuoted_def)
  have lenK: "length K1 = 32"
    by (simp add: K1_def hash_length)
  define n2 where "n2 = length tail + (length Y + 75)"
  have lenM: "length M = Suc n2"
    by (simp add: M_def m1_def rest1_def m2_def rest2_def v2_def v1_def lenK n2_def)
  have t3: "topMembers n2 (tail @ ''}'' @ NL) = Some ([identifierOf exampleKep], NL)"
  proof -
    have "topMembers (length (rangeKeps 2 1 [exampleKep]) + (length Y + 75))
        (rangeKeps 2 1 [exampleKep] @ ''}'' @ NL) = Some (map identifierOf [exampleKep], NL)"
      by (rule top_keps) (simp_all add: scalarsUnescaped_def exampleKep_def unescaped_def)
    then show ?thesis
      by (simp only: n2_def tail_def list.map)
  qed
  have o2: "jsonValue n2 (v2 @ rest2) = Some rest2"
  proof -
    have "15 + length (writeFields B) \<le> n2"
      by (simp add: lenY n2_def)
    then have "jsonValue n2 ('' {'' @ drop 2 (writeFields B) @ TAB @ ''}'' @ rest2) = Some rest2"
      unfolding B_def by (rule injected_object)
    then show ?thesis
      by (simp add: v2_def Y_def del: jsonValue.simps)
  qed
  have t2: "topMembers (Suc n2) m2 = Some ([''injected'', identifierOf exampleKep], NL)"
  proof -
    have inj: "list_all unescaped ''injected''"
      by (simp add: unescaped_def)
    have sk: "skipWS rest2 = CHR '','' # NL @ tail @ ''}'' @ NL"
      by (simp add: rest2_def isWS_literals)
    have "topMembers n2 (NL @ tail @ ''}'' @ NL) = Some ([identifierOf exampleKep], NL)"
      using t3 by (simp add: topMembers_ws isWS_literals del: topMembers.simps)
    with top_member [OF inj o2] sk show ?thesis
      by (simp add: m2_def del: topMembers.simps)
  qed
  have o1: "jsonValue (Suc n2) (v1 @ rest1) = Some rest1"
  proof -
    have "jsonValue (Suc (Suc (Suc 0))) (v1 @ rest1) = Some rest1"
      by (simp only: v1_def append_assoc title_object)
    then show ?thesis
      by (rule jsonValue_mono) (simp add: n2_def)
  qed
  have t1: "topMembers (Suc (Suc n2)) m1 = Some ([K1, ''injected'', identifierOf exampleKep], NL)"
  proof -
    have k: "list_all unescaped K1"
      unfolding K1_def by (rule hash_unescaped)
    have sk: "skipWS rest1 = CHR '','' # CHR 0x20 # m2"
      by (simp add: rest1_def isWS_literals)
    have "topMembers (Suc n2) (CHR 0x20 # m2) = Some ([''injected'', identifierOf exampleKep], NL)"
      using t2 by (simp add: topMembers_ws isWS_literals del: topMembers.simps)
    with top_member [OF k o1] sk show ?thesis
      by (simp add: m1_def del: topMembers.simps)
  qed
  have "skipWS M = CHR 0x22 # K1 @ DQ @ '':'' @ v1 @ rest1"
    by (simp add: M_def m1_def isWS_literals)
  then have "topKeys (CHR ''{'' # M) =
      (case topMembers (Suc (length M)) M of
         None \<Rightarrow> None
       | Some (ks, rest) \<Rightarrow> if skipWS rest = [] then Some ks else None)"
    by (rule topKeys_open) simp
  moreover have "topMembers (Suc (length M)) M = topMembers (Suc (Suc n2)) m1"
    unfolding lenM by (simp add: M_def topMembers_ws isWS_literals del: topMembers.simps)
  ultimately show ?thesis
    unfolding shape using t1 by (simp add: isWS_literals identifierOf_def K1_def)
qed

text \<open>
  C4 at two documents, the first with the title \<^verbatim>\<open>A"}, "injected": {"title": "B\<close>:
  the walk finds \<^verbatim>\<open>0.md\<close> and then \<^verbatim>\<open>a.md\<close>, the run exits with status 0 and
  the text it writes is valid JSON, but the object has three top-level members for the two
  documents. Their keys are the identifier of the first document, \<^verbatim>\<open>injected\<close> and
  the identifier of the second document: the second member of the object is not the one of
  the second document, and its key is the identifier of no document. The title is copied
  between the quotes of the format string as it is, so it closes the member of its own
  document and opens another.
\<close>

theorem injected_title_adds_member:
  "findMarkdownFiles (exampleWorld [dirAt ''keps'' ''keps'', fileAt ''keps/0.md'' ''0.md'',
                                    fileAt ''keps/a.md'' ''a.md'']) ''keps'' =
     ([''keps/0.md'', ''keps/a.md''], None) \<and>
   exit_status (main (exampleWorld [dirAt ''keps'' ''keps'', fileAt ''keps/0.md'' ''0.md'',
                                    fileAt ''keps/a.md'' ''a.md''])) = 0 \<and>
   created (main (exampleWorld [dirAt ''keps'' ''keps'', fileAt ''keps/0.md'' ''0.md'',
                                fileAt ''keps/a.md'' ''a.md''])) =
     Some (''keps.json'', fileText [injectedKep, exampleKep]) \<and>
   validJSON (fileText [injectedKep, exampleKep]) \<and>
   topKeys (fileText [injectedKep, exampleKep]) =
     Some [identifierOf injectedKep, ''injected'', identifierOf exampleKep] \<and>
   ''injected'' \<noteq> identifierOf injectedKep \<and> ''injected'' \<noteq> identifierOf exampleKep"
proof -
  let ?w = "exampleWorld [dirAt ''keps'' ''keps'', fileAt ''keps/0.md'' ''0.md'',
                          fileAt ''keps/a.md'' ''a.md'']"
  have flags: "flag_dir ?w \<noteq> []" "\<not> stat_IsNotExist ?w (flag_dir ?w)" "flag_output ?w \<noteq> []"
    "os_Create ?w (flag_output ?w) = None" "flag_output ?w = ''keps.json''" "flag_dir ?w = ''keps''"
    by (simp_all add: exampleWorld_def)
  have found: "findMarkdownFiles ?w (flag_dir ?w) = ([''keps/0.md'', ''keps/a.md''], None)"
    by (simp add: findMarkdownFiles_eq exampleWorld_def discovered_def firstError_def
        eligible_def noError_def dirAt_def fileAt_def ignoreList_def HasSuffix_def)
  have pf: "parseFiles ?w [''keps/0.md'', ''keps/a.md''] =
      (progress [''keps/0.md'', ''keps/a.md''], Inr [injectedKep, exampleKep])"
    by (simp add: parseFiles_def exampleWorld_def exampleOpen_def exampleParse_def
        injectedKep_def exampleKep_def AddProposal_def progress_def)
  have "main ?w =
     \<lparr>exit_status = 0,
      stdout = progress [''keps/0.md'', ''keps/a.md''] @ ''Output file: '' @ flag_output ?w @ NL @
               ''Total KEPs: '' @ decimal (length [injectedKep, exampleKep]) @ NL,
      stderr = [], created = Some (flag_output ?w, fileText [injectedKep, exampleKep])\<rparr>"
    using flags(1-3) found _ pf flags(4) by (rule main_success) simp
  then have run: "exit_status (main ?w) = 0"
    "created (main ?w) = Some (''keps.json'', fileText [injectedKep, exampleKep])"
    using flags(5) by simp_all
  have keys: "topKeys (fileText [injectedKep, exampleKep]) =
      Some [identifierOf injectedKep, ''injected'', identifierOf exampleKep]"
    by (rule injected_keys)
  then have valid: "validJSON (fileText [injectedKep, exampleKep])"
    by (rule topKeys_valid)
  have "length (identifierOf kep) = 32" for kep
    by (simp add: identifierOf_def hash_length)
  then have "length (identifierOf kep) \<noteq> length ''injected''" for kep
    by simp
  then have other: "''injected'' \<noteq> identifierOf kep" for kep
    by metis
  from found flags(6) have "findMarkdownFiles ?w ''keps'' = ([''keps/0.md'', ''keps/a.md''], None)"
    by simp
  with run keys valid other show ?thesis
    by blast
qed

subsection \<open>Runs that succeed\<close>

text \<open>
  With both flags set, the directory present, a walk without error that finds at least
  one document, every document opening and parsing without error, and the output file
  created, the run exits with status 0: it prints one progress line for each file, the
  name of the output file and the number of proposals, nothing on the standard error, and
  writes the text of the proposals in the order of the files.
\<close>

theorem successful_run:
  assumes "flag_dir w \<noteq> []" and "\<not> stat_IsNotExist w (flag_dir w)" and "flag_output w \<noteq> []"
    and "findMarkdownFiles w (flag_dir w) = (files, None)" and "files \<noteq> []"
    and "list_all (parsesFine w) files" and "os_Create w (flag_output w) = None"
  shows "main w =
     \<lparr>exit_status = 0,
      stdout = progress files @ ''Output file: '' @ flag_output w @ NL @
               ''Total KEPs: '' @ decimal (length files) @ NL,
      stderr = [],
      created = Some (flag_output w, fileText (map (\<lambda>f. Parse w (contentsOf w f)) files))\<rparr>"
proof -
  have "parseFiles w files = (progress files, Inr (map (\<lambda>f. Parse w (contentsOf w f)) files))"
    using assms(6) by (rule parseFiles_fine)
  with assms(1-5) have "main w =
     \<lparr>exit_status = 0,
      stdout = progress files @ ''Output file: '' @ flag_output w @ NL @
               ''Total KEPs: '' @
               decimal (length (map (\<lambda>f. Parse w (contentsOf w f)) files)) @ NL,
      stderr = [],
      created = Some (flag_output w, fileText (map (\<lambda>f. Parse w (contentsOf w f)) files))\<rparr>"
    using assms(7) by (rule main_success)
  then show ?thesis by simp
qed

theorem successful_run_witness:
  "main (exampleWorld [dirAt ''keps'' ''keps'', fileAt ''keps/a.md'' ''a.md'',
                       dirAt ''keps/sig-x'' ''sig-x'', fileAt ''keps/README.md'' ''README.md'']) =
     \<lparr>exit_status = 0,
      stdout = ''>>>> parsed file successfully: keps/a.md'' @ NL @
               ''Output file: keps.json'' @ NL @ ''Total KEPs: 1'' @ NL,
      stderr = [],
      created = Some (''keps.json'', fileText [exampleKep])\<rparr>"
proof -
  let ?w = "exampleWorld [dirAt ''keps'' ''keps'', fileAt ''keps/a.md'' ''a.md'',
                          dirAt ''keps/sig-x'' ''sig-x'', fileAt ''keps/README.md'' ''README.md'']"
  have found: "findMarkdownFiles ?w (flag_dir ?w) = ([''keps/a.md''], None)"
    by (simp add: findMarkdownFiles_eq exampleWorld_def discovered_def firstError_def
        eligible_def noError_def dirAt_def fileAt_def ignoreList_def HasSuffix_def)
  have fine: "list_all (parsesFine ?w) [''keps/a.md'']"
    by (simp add: parsesFine_def exampleWorld_def exampleOpen_def exampleParse_def exampleKep_def)
  have flags: "flag_dir ?w \<noteq> []" "\<not> stat_IsNotExist ?w (flag_dir ?w)" "flag_output ?w \<noteq> []"
    "os_Create ?w (flag_output ?w) = None"
    by (simp_all add: exampleWorld_def)
  have one: "decimal (length [''keps/a.md'']) = ''1''"
    by (simp add: decimal.simps [of "Suc 0"] hexdigit_def)
  from successful_run [OF flags(1-3) found _ fine flags(4)]
  show ?thesis
    unfolding one
    by (simp add: exampleWorld_def contentsOf_def exampleOpen_def exampleParse_def progress_def)
qed

text \<open>
  A run creates its output file exactly when it exits with status 0; the status is 0 or 1.
\<close>

theorem file_created_iff_exit_zero:
  "(created (main w) \<noteq> None) = (exit_status (main w) = 0) \<and> exit_status (main w) \<le> 1"
  by (simp add: main_def Let_def printJSONOutput_def split: prod.splits option.splits sum.splits)

end
